theory Spec2Isabelle
  imports Complex_Main "HOL-Library.Signed_Division"
begin

section \<open>Numbers of the Go program\<close>

text \<open>
  The detector is written in Go (package \<open>speech\<close>, file \<open>detector.go\<close>).
  Its \<open>int\<close> is the 64-bit two's complement integer of the platforms the package
  builds on (it links the ONNX runtime through cgo): a value of type \<open>int\<close> is a HOL
  \<open>int\<close> in the range \<open>- 2 ^ 63 ..< 2 ^ 63\<close>, and each addition, subtraction and
  multiplication of the source is followed by \<open>wrap64\<close>. Go's integer division
  truncates towards zero: it is \<open>sdiv\<close>.

  The source's \<open>float32\<close> (probabilities, thresholds, samples) and \<open>float64\<close>
  (timestamps) are modelled by \<open>real\<close>: comparisons of finite floats are comparisons
  of the reals they denote, and a quotient \<open>float64(a) / float64(b)\<close> stands for the
  exact quotient that the machine rounds to the nearest \<open>float64\<close>. Not-a-number,
  infinities and rounding are outside this model.
\<close>

definition wrap64 :: "int \<Rightarrow> int" where
  "wrap64 k = (k + 2 ^ 63) mod 2 ^ 64 - 2 ^ 63"

definition stateLen :: nat where
  "stateLen = 2 * 1 * 128"

definition contextLen :: nat where
  "contextLen = 64"

section \<open>Configuration\<close>

record DetectorConfig =
  ModelPath :: string
  SampleRate :: int
  Threshold :: real
  NegativeThreshold :: real
  MinSilenceDurationMs :: int
  MinSpeechDurationMs :: int
  SpeechPadMs :: int
  LogLevel :: int

text \<open>\<open>IsValid\<close> returns Go's \<open>error\<close>: \<open>None\<close> is \<open>nil\<close>, \<open>Some m\<close> an error with
  message \<open>m\<close>. The checks are in the order of the source.\<close>

definition IsValid :: "DetectorConfig \<Rightarrow> string option" where
  "IsValid c =
    (if ModelPath c = [] then
       Some ''invalid ModelPath: should not be empty''
     else if SampleRate c \<noteq> 8000 \<and> SampleRate c \<noteq> 16000 then
       Some ''invalid SampleRate: valid values are 8000 and 16000''
     else if Threshold c \<le> 0 \<or> Threshold c \<ge> 1 then
       Some ''invalid Threshold: should be in range (0, 1)''
     else if NegativeThreshold c < 0 \<or> NegativeThreshold c \<ge> 1 then
       Some ''invalid NegativeThreshold: should be in range [0, 1)''
     else if NegativeThreshold c > 0 \<and> NegativeThreshold c \<ge> Threshold c then
       Some ''invalid NegativeThreshold: should be less than Threshold''
     else if MinSilenceDurationMs c < 0 then
       Some ''invalid MinSilenceDurationMs: should be a positive number''
     else if MinSpeechDurationMs c < 0 then
       Some ''invalid MinSpeechDurationMs: should be a positive number''
     else if SpeechPadMs c < 0 then
       Some ''invalid SpeechPadMs: should be a positive number''
     else None)"

section \<open>The detector\<close>

text \<open>
  The fields of \<open>Detector\<close> that hold handles of the ONNX runtime (\<open>api\<close>, \<open>env\<close>,
  \<open>sessionOpts\<close>, \<open>session\<close>, \<open>memoryInfo\<close>, \<open>cStrings\<close>) are foreign resources
  and are left out; \<open>state\<close> and \<open>ctx\<close> are the two arrays of the recurrent state.
\<close>

record Detector =
  cfg :: DetectorConfig
  state :: "real list"
  ctx :: "real list"
  currSample :: int
  triggered :: bool
  tempEnd :: int

text \<open>
  \<open>NewDetector\<close> validates, substitutes the two defaults and then creates the runtime
  session. The session set-up is a sequence of foreign calls, each of which may fail with
  a message of its own; it is the parameter \<open>ort_setup\<close>, which yields the message of the
  first failing call, if any.
\<close>

definition NewDetector :: "(DetectorConfig \<Rightarrow> string option) \<Rightarrow> DetectorConfig \<Rightarrow> string + Detector" where
  "NewDetector ort_setup cfg0 =
    (case IsValid cfg0 of
       Some err \<Rightarrow> Inl (''invalid config: '' @ err)
     | None \<Rightarrow>
        (let cfg1 = (if NegativeThreshold cfg0 = 0
                     then cfg0\<lparr>NegativeThreshold := Threshold cfg0 - 0.15\<rparr> else cfg0);
             cfg2 = (if MinSpeechDurationMs cfg1 = 0
                     then cfg1\<lparr>MinSpeechDurationMs := 250\<rparr> else cfg1)
         in case ort_setup cfg2 of
              Some msg \<Rightarrow> Inl msg
            | None \<Rightarrow> Inr \<lparr>cfg = cfg2, state = replicate stateLen 0, ctx = replicate contextLen 0,
                            currSample = 0, triggered = False, tempEnd = 0\<rparr>))"

record Segment =
  SpeechStartAt :: real
  SpeechEndAt :: real

datatype detect_error =
    InvalidNilDetector
  | NotEnoughSamples
  | InferFailed string
  | UnexpectedSpeechEnd

fun error_message :: "detect_error \<Rightarrow> string" where
  "error_message InvalidNilDetector = ''invalid nil detector''"
| "error_message NotEnoughSamples = ''not enough samples''"
| "error_message (InferFailed err) = ''infer failed: '' @ err"
| "error_message UnexpectedSpeechEnd = ''unexpected speech end''"

text \<open>
  The method \<open>infer\<close> runs the model on one window. Its file is not among the sources
  at hand, so it is a parameter of the model, with the contract of the specification: it
  is given the sample rate, the recurrent state (the arrays \<open>state\<close> and \<open>ctx\<close>) and
  the window, and it yields an error message or a probability, together with the new
  contents of the two arrays. Being a method of the detector it may also read
  \<open>currSample\<close>, which is passed as well. It does not change \<open>currSample\<close>,
  \<open>triggered\<close>, \<open>tempEnd\<close> or the configuration, and its answer does not depend on
  \<open>triggered\<close>, \<open>tempEnd\<close>, the thresholds, the durations or the padding.
\<close>

type_synonym infer_fn =
  "int \<Rightarrow> int \<Rightarrow> real list \<times> real list \<Rightarrow> real list \<Rightarrow> (string + real) \<times> real list \<times> real list"

subsection \<open>Local values of \<open>Detect\<close>\<close>

definition windowSize :: "Detector \<Rightarrow> int" where
  "windowSize sd = (if SampleRate (cfg sd) = 8000 then 256 else 512)"

definition minSilenceSamples :: "Detector \<Rightarrow> int" where
  "minSilenceSamples sd = wrap64 (MinSilenceDurationMs (cfg sd) * SampleRate (cfg sd)) sdiv 1000"

definition speechPadSamples :: "Detector \<Rightarrow> int" where
  "speechPadSamples sd = wrap64 (SpeechPadMs (cfg sd) * SampleRate (cfg sd)) sdiv 1000"

definition minSpeechSamples :: "Detector \<Rightarrow> int" where
  "minSpeechSamples sd = wrap64 (MinSpeechDurationMs (cfg sd) * SampleRate (cfg sd)) sdiv 1000"

subsection \<open>One iteration of the loop, after \<open>infer\<close> has returned a probability\<close>

text \<open>An iteration either goes on to the next window (\<open>Next\<close>, also for \<open>continue\<close>)
  or leaves \<open>Detect\<close> with an error (\<open>Return\<close>). Both carry the detector as the
  iteration left it, since \<open>Detect\<close> updates it in place.\<close>

datatype iteration = Next Detector "Segment list" | Return detect_error Detector

definition speechStartAt :: "Detector \<Rightarrow> real" where
  "speechStartAt sd =
    (let t = real_of_int (wrap64 (wrap64 (currSample sd - windowSize sd) - speechPadSamples sd))
               / real_of_int (SampleRate (cfg sd))
     in if t < 0 then 0 else t)"

definition speechEndAt :: "Detector \<Rightarrow> real" where
  "speechEndAt sd =
    real_of_int (wrap64 (tempEnd sd + speechPadSamples sd)) / real_of_int (SampleRate (cfg sd))"

definition set_last_end :: "real \<Rightarrow> Segment list \<Rightarrow> Segment list" where
  "set_last_end e segments =
    segments[length segments - 1 := (segments ! (length segments - 1))\<lparr>SpeechEndAt := e\<rparr>]"

text \<open>\<open>sd.currSample += windowSize\<close>\<close>

definition advance :: "Detector \<Rightarrow> Detector" where
  "advance sd = sd\<lparr>currSample := wrap64 (currSample sd + windowSize sd)\<rparr>"

text \<open>A window of speech cancels a pending candidate for the end of the segment.\<close>

definition rearm :: "real \<Rightarrow> Detector \<Rightarrow> Detector" where
  "rearm speechProb sd =
    (if speechProb \<ge> Threshold (cfg sd) \<and> tempEnd sd \<noteq> 0 then sd\<lparr>tempEnd := 0\<rparr> else sd)"

text \<open>A window of speech outside a segment opens one.\<close>

definition speech_start :: "real \<Rightarrow> Detector \<Rightarrow> Segment list \<Rightarrow> Detector \<times> Segment list" where
  "speech_start speechProb sd segments =
    (if speechProb \<ge> Threshold (cfg sd) \<and> \<not> triggered sd then
       (let sd' = sd\<lparr>triggered := True\<rparr>
        in (sd', segments @ [\<lparr>SpeechStartAt = speechStartAt sd', SpeechEndAt = 0\<rparr>]))
     else (sd, segments))"

text \<open>\<open>if sd.tempEnd == 0 { sd.tempEnd = sd.currSample }\<close>\<close>

definition mark_candidate :: "Detector \<Rightarrow> Detector" where
  "mark_candidate sd = (if tempEnd sd = 0 then sd\<lparr>tempEnd := currSample sd\<rparr> else sd)"

definition loop_body :: "real \<Rightarrow> Detector \<Rightarrow> Segment list \<Rightarrow> iteration" where
  "loop_body speechProb sd segments =
    (case speech_start speechProb (rearm speechProb (advance sd)) segments of
       (sd3, segments3) \<Rightarrow>
         if speechProb < NegativeThreshold (cfg sd3) \<and> triggered sd3 then
           (let sd4 = mark_candidate sd3
            in if wrap64 (currSample sd4 - tempEnd sd4) < minSilenceSamples sd4 then
                 Next sd4 segments3
               else
                 (let e = speechEndAt sd4;
                      sd5 = sd4\<lparr>tempEnd := 0, triggered := False\<rparr>
                  in if length segments3 < 1 then Return UnexpectedSpeechEnd sd5
                     else Next sd5 (set_last_end e segments3)))
         else Next sd3 segments3)"

subsection \<open>The loop over the windows\<close>

text \<open>
  \<open>for i := 0; i < len(pcm)-windowSize; i += windowSize\<close>. The window handed to
  \<open>infer\<close> is \<open>pcm[i : i+windowSize]\<close>. The source computes \<open>windowSize\<close>,
  \<open>minSilenceSamples\<close> and \<open>speechPadSamples\<close> once, before the loop, from
  \<open>sd.cfg\<close>; no iteration changes \<open>sd.cfg\<close>, so reading them from the detector in
  each iteration gives the same values. The index stays below \<open>len(pcm)\<close>, which fits an
  \<open>int\<close>, so \<open>i + windowSize\<close> does not wrap.
\<close>

function detect_loop ::
  "infer_fn \<Rightarrow> real list \<Rightarrow> int \<Rightarrow> Detector \<Rightarrow> Segment list \<Rightarrow> (detect_error + Segment list) \<times> Detector"
where
  "detect_loop infer pcm i sd segments =
    (if i < int (length pcm) - windowSize sd then
       (case infer (SampleRate (cfg sd)) (currSample sd) (state sd, ctx sd)
                   (take (nat (windowSize sd)) (drop (nat i) pcm)) of
          (Inl err, st, cx) \<Rightarrow> (Inl (InferFailed err), sd\<lparr>state := st, ctx := cx\<rparr>)
        | (Inr speechProb, st, cx) \<Rightarrow>
            (case loop_body speechProb (sd\<lparr>state := st, ctx := cx\<rparr>) segments of
               Return e sd' \<Rightarrow> (Inl e, sd')
             | Next sd' segments' \<Rightarrow> detect_loop infer pcm (i + windowSize sd) sd' segments'))
     else (Inr segments, sd))"
  by pat_completeness auto
termination
  by (relation "measure (\<lambda>(infer, pcm, i, sd, segments). nat (int (length pcm) - i))")
     (auto simp: windowSize_def split: if_splits)

declare detect_loop.simps [simp del]

subsection \<open>\<open>Detect\<close>, \<open>Reset\<close> and the setters\<close>

definition keep_segment :: "Detector \<Rightarrow> Segment \<Rightarrow> bool" where
  "keep_segment sd segment =
    (SpeechEndAt segment = 0 \<or>
     (SpeechEndAt segment - SpeechStartAt segment) * real_of_int (SampleRate (cfg sd))
       \<ge> real_of_int (minSpeechSamples sd))"

text \<open>\<open>Detect\<close> returns Go's pair of a slice and an error (a \<open>nil\<close> slice is the empty
  list), and the detector as the call leaves it.\<close>

definition Detect ::
  "infer_fn \<Rightarrow> Detector \<Rightarrow> real list \<Rightarrow> (Segment list \<times> detect_error option) \<times> Detector"
where
  "Detect infer sd pcm =
    (if int (length pcm) < windowSize sd then (([], Some NotEnoughSamples), sd)
     else
       (case detect_loop infer pcm 0 sd [] of
          (Inl e, sd') \<Rightarrow> (([], Some e), sd')
        | (Inr segments, sd') \<Rightarrow>
            ((if MinSpeechDurationMs (cfg sd') > 0 then filter (keep_segment sd') segments
              else segments, None), sd')))"

text \<open>The receiver of \<open>Detect\<close> is a pointer: the method first rejects \<open>nil\<close>.\<close>

definition Detect_ptr ::
  "infer_fn \<Rightarrow> Detector option \<Rightarrow> real list \<Rightarrow> (Segment list \<times> detect_error option) \<times> Detector option"
where
  "Detect_ptr infer p pcm =
    (case p of
       None \<Rightarrow> (([], Some InvalidNilDetector), None)
     | Some sd \<Rightarrow> (case Detect infer sd pcm of (r, sd') \<Rightarrow> (r, Some sd')))"

text \<open>Successive calls of \<open>Detect\<close> on one detector, one for each buffer of a list, up
  to the first call that returns an error: the segments that the calls have returned, in
  order, the error of the last call, and the detector as the last call leaves it.\<close>

fun Detect_calls ::
  "infer_fn \<Rightarrow> Detector \<Rightarrow> real list list \<Rightarrow> (Segment list \<times> detect_error option) \<times> Detector"
where
  "Detect_calls infer sd [] = (([], None), sd)"
| "Detect_calls infer sd (pcm # pcms) =
    (case Detect infer sd pcm of
       ((out, Some e), sd') \<Rightarrow> ((out, Some e), sd')
     | ((out, None), sd') \<Rightarrow>
         (case Detect_calls infer sd' pcms of
            ((outs, err), sd'') \<Rightarrow> ((out @ outs, err), sd'')))"

definition Reset :: "Detector \<Rightarrow> Detector" where
  "Reset sd = sd\<lparr>currSample := 0, triggered := False, tempEnd := 0,
                 state := replicate stateLen 0, ctx := replicate contextLen 0\<rparr>"

definition Reset_ptr :: "Detector option \<Rightarrow> detect_error option \<times> Detector option" where
  "Reset_ptr p = (case p of None \<Rightarrow> (Some InvalidNilDetector, None)
                          | Some sd \<Rightarrow> (None, Some (Reset sd)))"

definition SetThreshold :: "real \<Rightarrow> Detector \<Rightarrow> Detector" where
  "SetThreshold v sd = sd\<lparr>cfg := (cfg sd)\<lparr>Threshold := v\<rparr>\<rparr>"

definition SetNegativeThreshold :: "real \<Rightarrow> Detector \<Rightarrow> Detector" where
  "SetNegativeThreshold v sd = sd\<lparr>cfg := (cfg sd)\<lparr>NegativeThreshold := v\<rparr>\<rparr>"

definition SetMinSpeechDurationMs :: "int \<Rightarrow> Detector \<Rightarrow> Detector" where
  "SetMinSpeechDurationMs v sd = sd\<lparr>cfg := (cfg sd)\<lparr>MinSpeechDurationMs := v\<rparr>\<rparr>"

section \<open>The states in which the loop condition is evaluated\<close>

text \<open>
  \<open>loop_head infer pcm sd0 i sd segments\<close>: a call of \<open>Detect\<close> on the buffer \<open>pcm\<close>,
  entered with the detector \<open>sd0\<close>, evaluates its loop condition with index \<open>i\<close>,
  detector \<open>sd\<close> and the list \<open>segments\<close>. The first time is on entry; each later
  time follows an iteration in which \<open>infer\<close> returned a probability and the body ran
  to its end or to \<open>continue\<close>.
\<close>

inductive loop_head ::
  "infer_fn \<Rightarrow> real list \<Rightarrow> Detector \<Rightarrow> int \<Rightarrow> Detector \<Rightarrow> Segment list \<Rightarrow> bool"
  for infer :: infer_fn and pcm :: "real list" and sd0 :: Detector
where
  first: "loop_head infer pcm sd0 0 sd0 []"
| later: "loop_head infer pcm sd0 i sd segments \<Longrightarrow>
     i < int (length pcm) - windowSize sd \<Longrightarrow>
     infer (SampleRate (cfg sd)) (currSample sd) (state sd, ctx sd)
           (take (nat (windowSize sd)) (drop (nat i) pcm)) = (Inr speechProb, st, cx) \<Longrightarrow>
     loop_body speechProb (sd\<lparr>state := st, ctx := cx\<rparr>) segments = Next sd' segments' \<Longrightarrow>
     loop_head infer pcm sd0 (i + windowSize sd) sd' segments'"

code_pred loop_head .

section \<open>Inputs for the concrete runs\<close>

text \<open>Two stand-ins for the model. \<open>infer_first\<close> reads the probability off the first
  sample of the window, fails on a negative one, and leaves the recurrent state alone;
  \<open>infer_never\<close> fails on every window.\<close>

definition infer_first :: infer_fn where
  "infer_first sampleRate consumed rs window =
    (if window = [] \<or> hd window < 0 then Inl ''model run failed'' else Inr (hd window),
     fst rs, snd rs)"

definition infer_never :: infer_fn where
  "infer_never sampleRate consumed rs window = (Inl ''session unavailable'', fst rs, snd rs)"

text \<open>\<open>buffer8k ps\<close> is a buffer of one 256-sample window per element of \<open>ps\<close>, each
  window filled with that value.\<close>

definition buffer8k :: "real list \<Rightarrow> real list" where
  "buffer8k ps = concat (map (replicate 256) ps)"

definition cfg8k :: DetectorConfig where
  "cfg8k = \<lparr>ModelPath = ''silero_vad.onnx'', SampleRate = 8000, Threshold = 0.5,
     NegativeThreshold = 0.35, MinSilenceDurationMs = 0, MinSpeechDurationMs = 250,
     SpeechPadMs = 0, LogLevel = 3\<rparr>"

definition cfg_low_threshold :: DetectorConfig where
  "cfg_low_threshold = \<lparr>ModelPath = ''silero_vad.onnx'', SampleRate = 16000, Threshold = 0.1,
     NegativeThreshold = 0, MinSilenceDurationMs = 100, MinSpeechDurationMs = 250,
     SpeechPadMs = 30, LogLevel = 3\<rparr>"

text \<open>The detector that \<open>NewDetector\<close> builds around a configuration.\<close>

definition fresh :: "DetectorConfig \<Rightarrow> Detector" where
  "fresh c = \<lparr>cfg = c, state = replicate stateLen 0, ctx = replicate contextLen 0,
     currSample = 0, triggered = False, tempEnd = 0\<rparr>"

section \<open>Basic facts\<close>

lemma wrap64_id: "- (2 ^ 63) \<le> k \<Longrightarrow> k < 2 ^ 63 \<Longrightarrow> wrap64 k = k"
  by (simp add: wrap64_def)

lemma wrap64_numeral [simp]:
  "wrap64 (numeral n) = (numeral n + 2 ^ 63) mod 2 ^ 64 - 2 ^ 63"
  "wrap64 0 = 0"
  by (simp_all add: wrap64_def)

lemma windowSize_pos: "0 < windowSize sd"
  by (simp add: windowSize_def)

lemma locals_upd [simp]:
  "windowSize (sd\<lparr>state := a\<rparr>) = windowSize sd"
  "windowSize (sd\<lparr>ctx := b\<rparr>) = windowSize sd"
  "windowSize (sd\<lparr>currSample := k\<rparr>) = windowSize sd"
  "windowSize (sd\<lparr>triggered := t\<rparr>) = windowSize sd"
  "windowSize (sd\<lparr>tempEnd := k\<rparr>) = windowSize sd"
  "minSilenceSamples (sd\<lparr>state := a\<rparr>) = minSilenceSamples sd"
  "minSilenceSamples (sd\<lparr>ctx := b\<rparr>) = minSilenceSamples sd"
  "minSilenceSamples (sd\<lparr>currSample := k\<rparr>) = minSilenceSamples sd"
  "minSilenceSamples (sd\<lparr>triggered := t\<rparr>) = minSilenceSamples sd"
  "minSilenceSamples (sd\<lparr>tempEnd := k\<rparr>) = minSilenceSamples sd"
  "speechPadSamples (sd\<lparr>state := a\<rparr>) = speechPadSamples sd"
  "speechPadSamples (sd\<lparr>ctx := b\<rparr>) = speechPadSamples sd"
  "speechPadSamples (sd\<lparr>currSample := k\<rparr>) = speechPadSamples sd"
  "speechPadSamples (sd\<lparr>triggered := t\<rparr>) = speechPadSamples sd"
  "speechPadSamples (sd\<lparr>tempEnd := k\<rparr>) = speechPadSamples sd"
  by (simp_all add: windowSize_def minSilenceSamples_def speechPadSamples_def)

lemma locals_cfg:
  "cfg sd' = cfg sd \<Longrightarrow> windowSize sd' = windowSize sd"
  "cfg sd' = cfg sd \<Longrightarrow> minSilenceSamples sd' = minSilenceSamples sd"
  "cfg sd' = cfg sd \<Longrightarrow> speechPadSamples sd' = speechPadSamples sd"
  "cfg sd' = cfg sd \<Longrightarrow> minSpeechSamples sd' = minSpeechSamples sd"
  by (simp_all add: windowSize_def minSilenceSamples_def speechPadSamples_def minSpeechSamples_def)

text \<open>What an iteration leaves alone.\<close>

lemma loop_body_Next_frame:
  assumes "loop_body p sd segments = Next sd' segments'"
  shows "cfg sd' = cfg sd" and "state sd' = state sd" and "ctx sd' = ctx sd"
    and "currSample sd' = wrap64 (currSample sd + windowSize sd)"
  using assms
  by (auto simp: loop_body_def advance_def rearm_def speech_start_def mark_candidate_def Let_def
      split: if_splits)

lemma loop_body_Return_frame:
  assumes "loop_body p sd segments = Return e sd'"
  shows "cfg sd' = cfg sd" and "state sd' = state sd" and "ctx sd' = ctx sd"
    and "currSample sd' = wrap64 (currSample sd + windowSize sd)"
    and "e = UnexpectedSpeechEnd" and "segments = []" and "triggered sd"
    and "\<not> triggered sd'" and "tempEnd sd' = 0"
  using assms
  by (auto simp: loop_body_def advance_def rearm_def speech_start_def mark_candidate_def Let_def
      split: if_splits)

lemma loop_head_cfg: "loop_head infer pcm sd0 i sd segments \<Longrightarrow> cfg sd = cfg sd0"
  by (induction rule: loop_head.induct) (auto dest: loop_body_Next_frame(1))

lemma loop_head_index:
  "loop_head infer pcm sd0 i sd segments \<Longrightarrow> 0 \<le> i \<and> (i = 0 \<or> i < int (length pcm))"
proof (induction rule: loop_head.induct)
  case first
  show ?case by simp
next
  case (later i sd segments speechProb st cx sd' segments')
  have "0 < windowSize sd" by (rule windowSize_pos)
  with later show ?case by auto
qed

text \<open>The call computes, from any state in which it evaluates the loop condition, what
  the rest of the loop computes from there.\<close>

lemma loop_head_resume:
  "loop_head infer pcm sd0 i sd segments \<Longrightarrow>
   detect_loop infer pcm 0 sd0 [] = detect_loop infer pcm i sd segments"
proof (induction rule: loop_head.induct)
  case first
  show ?case by (rule refl)
next
  case (later i sd segments speechProb st cx sd' segments')
  have "detect_loop infer pcm i sd segments =
        detect_loop infer pcm (i + windowSize sd) sd' segments'"
    using later.hyps(2,3,4) by (subst detect_loop.simps) simp
  with later.IH show ?case by simp
qed

lemma detect_loop_infer_error:
  assumes "i < int (length pcm) - windowSize sd"
    and "infer (SampleRate (cfg sd)) (currSample sd) (state sd, ctx sd)
           (take (nat (windowSize sd)) (drop (nat i) pcm)) = (Inl err, st, cx)"
  shows "detect_loop infer pcm i sd segments =
         (Inl (InferFailed err), sd\<lparr>state := st, ctx := cx\<rparr>)"
  using assms by (subst detect_loop.simps) simp

lemma detect_loop_body_return:
  assumes "i < int (length pcm) - windowSize sd"
    and "infer (SampleRate (cfg sd)) (currSample sd) (state sd, ctx sd)
           (take (nat (windowSize sd)) (drop (nat i) pcm)) = (Inr p, st, cx)"
    and "loop_body p (sd\<lparr>state := st, ctx := cx\<rparr>) segments = Return e sd'"
  shows "detect_loop infer pcm i sd segments = (Inl e, sd')"
  using assms by (subst detect_loop.simps) simp

lemma loop_head_enough:
  assumes "loop_head infer pcm sd0 i sd segments" and "i < int (length pcm) - windowSize sd"
  shows "\<not> int (length pcm) < windowSize sd0"
proof -
  have "windowSize sd = windowSize sd0"
    using assms(1) by (auto dest: loop_head_cfg intro: locals_cfg)
  moreover have "0 \<le> i" using assms(1) by (auto dest: loop_head_index)
  ultimately show ?thesis using assms(2) by simp
qed

lemmas body_defs = loop_body_def advance_def rearm_def speech_start_def mark_candidate_def Let_def

lemmas run_defs = detect_loop.simps Detect_def fresh_def cfg8k_def buffer8k_def windowSize_def
  infer_first_def infer_never_def loop_body_def advance_def rearm_def speech_start_def
  mark_candidate_def Let_def speechStartAt_def speechEndAt_def
  set_last_end_def minSilenceSamples_def speechPadSamples_def minSpeechSamples_def
  keep_segment_def signed_divide_int_def

section \<open>Validation of the configuration\<close>



section \<open>The default of the negative threshold\<close>

text \<open>
  Claim C3. \<open>NewDetector\<close> replaces a \<open>NegativeThreshold\<close> of 0 by
  \<open>Threshold - 0.15\<close>. For the valid configuration \<open>cfg_low_threshold\<close>, whose
  threshold is 0.1, the substituted value is \<open>- 0.05\<close>: it is negative, and the
  configuration that the new detector carries is one that \<open>IsValid\<close> itself rejects.
\<close>

theorem NewDetector_default_below_zero:
  "IsValid cfg_low_threshold = None
   \<and> NewDetector (\<lambda>c. None) cfg_low_threshold =
       Inr (fresh (cfg_low_threshold\<lparr>NegativeThreshold := - 0.05\<rparr>))
   \<and> NegativeThreshold (cfg (fresh (cfg_low_threshold\<lparr>NegativeThreshold := - 0.05\<rparr>))) < 0
   \<and> IsValid (cfg (fresh (cfg_low_threshold\<lparr>NegativeThreshold := - 0.05\<rparr>))) =
       Some ''invalid NegativeThreshold: should be in range [0, 1)''"
  by (simp add: NewDetector_def IsValid_def cfg_low_threshold_def fresh_def)

section \<open>The windows of a buffer\<close>

text \<open>
  The loop leaves at the first multiple of the window size that is not below
  \<open>len(pcm) - windowSize\<close>. A call that returns without error has therefore run
  \<open>infer\<close> on \<open>(len(pcm) - 1) div windowSize\<close> windows, the ones at the offsets
  \<open>0, windowSize, ...\<close> below the exit index: one less than \<open>len(pcm) div windowSize\<close>
  exactly when the window size divides the length.
\<close>

lemma loop_head_dvd: "loop_head infer pcm sd0 i sd segments \<Longrightarrow> windowSize sd0 dvd i"
proof (induction rule: loop_head.induct)
  case first
  show ?case by simp
next
  case (later i sd segments speechProb st cx sd' segments')
  have "windowSize sd = windowSize sd0"
    using later.hyps(1) by (auto dest: loop_head_cfg intro: locals_cfg)
  with later.IH show ?case by simp
qed

lemma loop_exit_index:
  assumes h: "loop_head infer pcm sd0 i sd segments"
    and ex: "\<not> i < int (length pcm) - windowSize sd"
    and en: "windowSize sd0 \<le> int (length pcm)"
  shows "i = windowSize sd0 * ((int (length pcm) - 1) div windowSize sd0)"
proof -
  define W where "W = windowSize sd0"
  define n where "n = int (length pcm)"
  have Wpos: "0 < W" unfolding W_def by (rule windowSize_pos)
  have Ws: "windowSize sd = W"
    using h unfolding W_def by (auto dest: loop_head_cfg intro: locals_cfg)
  have ix: "0 \<le> i" "i = 0 \<or> i < n" using loop_head_index [OF h] by (simp_all add: n_def)
  have lo: "n - W \<le> i" using ex Ws by (simp add: n_def)
  have hi: "i < n" using ix lo en Wpos by (auto simp: W_def n_def)
  from loop_head_dvd [OF h] obtain k where k: "i = W * k" by (auto simp: W_def)
  have "n - 1 = W * k + (n - 1 - i)" using k by simp
  moreover have "0 \<le> n - 1 - i" "n - 1 - i < W" using lo hi by simp_all
  ultimately have "(n - 1) div W = k" by (rule int_div_pos_eq)
  with k show ?thesis by (simp add: W_def n_def)
qed

text \<open>
  Claim C2. The loop runs while \<open>i < len(pcm) - windowSize\<close>, so the last whole window
  of a buffer whose length is a multiple of the window size is not processed. At 8000 Hz
  (windows of 256 samples): on a buffer of exactly 256 samples \<open>Detect\<close> succeeds without
  calling \<open>infer\<close> at all, even with a model that fails on every window, and leaves the
  detector as it was; on a buffer of 512 samples whose second window is speech it returns
  no segment and consumes 256 samples; with one sample more the second window is
  processed and the segment is found.
\<close>

theorem Detect_skips_last_window:
  "length (buffer8k [0.9]) = 256
   \<and> Detect infer_never (fresh cfg8k) (buffer8k [0.9]) = (([], None), fresh cfg8k)
   \<and> length (buffer8k [0.1, 0.9]) = 512
   \<and> Detect infer_first (fresh cfg8k) (buffer8k [0.1, 0.9]) =
       (([], None), (fresh cfg8k)\<lparr>currSample := 256\<rparr>)
   \<and> Detect infer_first (fresh cfg8k) (buffer8k [0.1, 0.9] @ [0]) =
       (([\<lparr>SpeechStartAt = 0.032, SpeechEndAt = 0\<rparr>], None),
        (fresh cfg8k)\<lparr>currSample := 512, triggered := True\<rparr>)"
  by (simp add: run_defs)

section \<open>Errors of a call\<close>

text \<open>
  Claim C9. If \<open>infer\<close> fails on a window that a call of \<open>Detect\<close> reaches, whatever
  segments the call has collected by then, \<open>Detect\<close> returns the error \<open>infer failed\<close>
  and the \<open>nil\<close> slice; and on a buffer shorter than one window it returns the error
  \<open>not enough samples\<close> and the \<open>nil\<close> slice.
\<close>

theorem Detect_aborts_without_segments:
  "(loop_head infer pcm sd0 i sd segments \<and>
    i < int (length pcm) - windowSize sd \<and>
    infer (SampleRate (cfg sd)) (currSample sd) (state sd, ctx sd)
          (take (nat (windowSize sd)) (drop (nat i) pcm)) = (Inl err, st, cx)
    \<longrightarrow> Detect infer sd0 pcm = (([], Some (InferFailed err)), sd\<lparr>state := st, ctx := cx\<rparr>))
   \<and> (int (length pcm) < windowSize sd0
    \<longrightarrow> Detect infer sd0 pcm = (([], Some NotEnoughSamples), sd0))"
proof (intro conjI impI)
  assume a: "loop_head infer pcm sd0 i sd segments \<and>
    i < int (length pcm) - windowSize sd \<and>
    infer (SampleRate (cfg sd)) (currSample sd) (state sd, ctx sd)
          (take (nat (windowSize sd)) (drop (nat i) pcm)) = (Inl err, st, cx)"
  then have "detect_loop infer pcm 0 sd0 [] =
             (Inl (InferFailed err), sd\<lparr>state := st, ctx := cx\<rparr>)"
    using loop_head_resume [of infer pcm sd0 i sd segments]
      detect_loop_infer_error [of i pcm sd infer err st cx segments] by simp
  moreover have "\<not> int (length pcm) < windowSize sd0"
    using a loop_head_enough [of infer pcm sd0 i sd segments] by blast
  ultimately show "Detect infer sd0 pcm =
                   (([], Some (InferFailed err)), sd\<lparr>state := st, ctx := cx\<rparr>)"
    by (simp add: Detect_def)
next
  assume "int (length pcm) < windowSize sd0"
  then show "Detect infer sd0 pcm = (([], Some NotEnoughSamples), sd0)"
    by (simp add: Detect_def)
qed

text \<open>At 8000 Hz, a model that fails on the second window, after the first has opened a
  segment; and a buffer of 255 samples.\<close>

theorem Detect_aborts_without_segments_witness:
  "loop_head infer_first (buffer8k [0.9, - 1, 0]) (fresh cfg8k) 256
     ((fresh cfg8k)\<lparr>currSample := 256, triggered := True\<rparr>)
     [\<lparr>SpeechStartAt = 0, SpeechEndAt = 0\<rparr>]
   \<and> Detect infer_first (fresh cfg8k) (buffer8k [0.9, - 1, 0]) =
       (([], Some (InferFailed ''model run failed'')),
        (fresh cfg8k)\<lparr>currSample := 256, triggered := True\<rparr>)
   \<and> Detect infer_first (fresh cfg8k) (replicate 255 0.9) =
       (([], Some NotEnoughSamples), fresh cfg8k)"
proof -
  let ?pcm = "buffer8k [0.9, - 1, 0]"
  let ?sd = "(fresh cfg8k)\<lparr>currSample := 256, triggered := True\<rparr>"
  let ?segs = "[\<lparr>SpeechStartAt = 0, SpeechEndAt = 0\<rparr>]"
  have "loop_head infer_first ?pcm (fresh cfg8k) (0 + windowSize (fresh cfg8k)) ?sd ?segs"
    by (rule loop_head.later [OF loop_head.first, where speechProb = "0.9"
          and st = "state (fresh cfg8k)" and cx = "ctx (fresh cfg8k)"])
       (simp_all add: run_defs)
  then have h: "loop_head infer_first ?pcm (fresh cfg8k) 256 ?sd ?segs"
    by (simp add: windowSize_def fresh_def cfg8k_def)
  have f: "infer_first (SampleRate (cfg ?sd)) (currSample ?sd) (state ?sd, ctx ?sd)
             (take (nat (windowSize ?sd)) (drop (nat 256) ?pcm)) =
           (Inl ''model run failed'', state ?sd, ctx ?sd)"
    by (simp add: run_defs)
  have lt: "256 < int (length ?pcm) - windowSize ?sd"
    by (simp add: run_defs)
  have short: "int (length (replicate 255 (0.9::real))) < windowSize (fresh cfg8k)"
    by (simp add: run_defs)
  from Detect_aborts_without_segments [of infer_first ?pcm "fresh cfg8k" 256 ?sd ?segs
      "''model run failed''" "state ?sd" "ctx ?sd"] h f lt
  have 1: "Detect infer_first (fresh cfg8k) ?pcm =
           (([], Some (InferFailed ''model run failed'')), ?sd)"
    by simp
  from Detect_aborts_without_segments [of infer_first "replicate 255 0.9" "fresh cfg8k"
      0 "fresh cfg8k" "[]" "[]" "[]" "[]"] short
  have 2: "Detect infer_first (fresh cfg8k) (replicate 255 0.9) =
           (([], Some NotEnoughSamples), fresh cfg8k)"
    by blast
  from h 1 2 show ?thesis by blast
qed

lemma set_last_end_snoc:
  "segments \<noteq> [] \<Longrightarrow>
   set_last_end e segments = butlast segments @ [(last segments)\<lparr>SpeechEndAt := e\<rparr>]"
proof (induction segments rule: rev_induct)
  case Nil
  then show ?case by simp
next
  case (snoc x xs)
  show ?case by (simp add: set_last_end_def)
qed

lemma loop_body_triggered_nonempty:
  assumes "loop_body p sd segments = Next sd' segments'"
    and "triggered sd \<longrightarrow> segments \<noteq> []"
  shows "triggered sd' \<longrightarrow> segments' \<noteq> []"
  using assms by (auto simp: body_defs set_last_end_def split: if_splits)

lemma loop_head_triggered_nonempty:
  assumes "loop_head infer pcm sd0 i sd segments" and "\<not> triggered sd0"
  shows "triggered sd \<longrightarrow> segments \<noteq> []"
  using assms
proof (induction rule: loop_head.induct)
  case first
  then show ?case by simp
next
  case (later i sd segments speechProb st cx sd' segments')
  then show ?case
    using loop_body_triggered_nonempty [of speechProb "sd\<lparr>state := st, ctx := cx\<rparr>" segments sd' segments']
    by simp
qed

text \<open>Any result of the loop comes from a state in which the loop condition was evaluated.\<close>

lemma detect_loop_cases:
  assumes "loop_head infer pcm sd0 i sd segments"
    and "detect_loop infer pcm i sd segments = (r, sd')"
  shows "(\<exists>i' out. r = Inr out \<and> loop_head infer pcm sd0 i' sd' out \<and>
                   \<not> i' < int (length pcm) - windowSize sd')
       \<or> (\<exists>i' sd1 segments1 err st cx.
             loop_head infer pcm sd0 i' sd1 segments1 \<and> i' < int (length pcm) - windowSize sd1 \<and>
             infer (SampleRate (cfg sd1)) (currSample sd1) (state sd1, ctx sd1)
               (take (nat (windowSize sd1)) (drop (nat i') pcm)) = (Inl err, st, cx) \<and>
             r = Inl (InferFailed err) \<and> sd' = sd1\<lparr>state := st, ctx := cx\<rparr>)
       \<or> (\<exists>i' sd1 segments1 p st cx e.
             loop_head infer pcm sd0 i' sd1 segments1 \<and> i' < int (length pcm) - windowSize sd1 \<and>
             infer (SampleRate (cfg sd1)) (currSample sd1) (state sd1, ctx sd1)
               (take (nat (windowSize sd1)) (drop (nat i') pcm)) = (Inr p, st, cx) \<and>
             loop_body p (sd1\<lparr>state := st, ctx := cx\<rparr>) segments1 = Return e sd' \<and>
             r = Inl e)"
  using assms
proof (induction infer pcm i sd segments rule: detect_loop.induct)
  case (1 infer pcm i sd segments)
  show ?case
  proof (cases "i < int (length pcm) - windowSize sd")
    case False
    with "1.prems" show ?thesis
      by (subst (asm) detect_loop.simps) auto
  next
    case True
    obtain res st cx where inf: "infer (SampleRate (cfg sd)) (currSample sd) (state sd, ctx sd)
               (take (nat (windowSize sd)) (drop (nat i) pcm)) = (res, st, cx)"
      by (metis prod_cases3)
    show ?thesis
    proof (cases res)
      case (Inl err)
      with True inf "1.prems" have "r = Inl (InferFailed err) \<and> sd' = sd\<lparr>state := st, ctx := cx\<rparr>"
        by (simp add: detect_loop_infer_error)
      with True inf Inl "1.prems"(1) show ?thesis by blast
    next
      case (Inr p)
      show ?thesis
      proof (cases "loop_body p (sd\<lparr>state := st, ctx := cx\<rparr>) segments")
        case (Return e sd1)
        with True inf Inr "1.prems" have "r = Inl e \<and> sd' = sd1"
          by (simp add: detect_loop_body_return)
        with True inf Inr Return "1.prems"(1) show ?thesis by blast
      next
        case (Next sd1 segments1)
        have h: "loop_head infer pcm sd0 (i + windowSize sd) sd1 segments1"
          using "1.prems"(1) True inf Inr Next by (auto intro: loop_head.later)
        have "detect_loop infer pcm i sd segments =
              detect_loop infer pcm (i + windowSize sd) sd1 segments1"
          using True inf Inr Next by (subst detect_loop.simps) simp
        with "1.prems"(2) have eq: "detect_loop infer pcm (i + windowSize sd) sd1 segments1 = (r, sd')"
          by simp
        show ?thesis
          by (rule "1.IH" [OF True inf [symmetric] Inr refl Next h eq])
      qed
    qed
  qed
qed

text \<open>A call that starts outside a segment has a segment in its list whenever it is
  triggered, so the check of the list cannot fail.\<close>

lemma detect_loop_no_unexpected_end:
  assumes "\<not> triggered sd0" and "detect_loop infer pcm 0 sd0 [] = (r, sd')"
  shows "r \<noteq> Inl UnexpectedSpeechEnd"
proof
  assume r: "r = Inl UnexpectedSpeechEnd"
  from detect_loop_cases [OF loop_head.first assms(2)] r
  obtain i' sd1 segments1 p st cx e where
    h: "loop_head infer pcm sd0 i' sd1 segments1"
    and b: "loop_body p (sd1\<lparr>state := st, ctx := cx\<rparr>) segments1 = Return e sd'"
    by auto
  from loop_body_Return_frame(6,7) [OF b] have "segments1 = []" and "triggered sd1" by simp_all
  with loop_head_triggered_nonempty [OF h assms(1)] show False by simp
qed

section \<open>The check for a speech end without a segment\<close>

text \<open>
  Claim C5. When a window is classified as confirming silence (its probability is below the
  negative threshold while the detector is triggered), enough silence has passed to close
  the segment, and the call has no segment in its list, \<open>Detect\<close> returns the error
  \<open>unexpected speech end\<close> and the \<open>nil\<close> slice. A call that starts with
  \<open>triggered = false\<close>, as every call from the reset state does, never returns that
  error, whatever the model answers.
\<close>

theorem unexpected_speech_end_checked:
  "(loop_head infer pcm sd0 i sd [] \<and>
    i < int (length pcm) - windowSize sd \<and>
    infer (SampleRate (cfg sd)) (currSample sd) (state sd, ctx sd)
          (take (nat (windowSize sd)) (drop (nat i) pcm)) = (Inr p, st, cx) \<and>
    speech_start p (rearm p (advance (sd\<lparr>state := st, ctx := cx\<rparr>))) [] = (sd3, []) \<and>
    p < NegativeThreshold (cfg sd3) \<and> triggered sd3 \<and>
    \<not> wrap64 (currSample (mark_candidate sd3) - tempEnd (mark_candidate sd3))
        < minSilenceSamples (mark_candidate sd3)
    \<longrightarrow> Detect infer sd0 pcm =
          (([], Some UnexpectedSpeechEnd), (mark_candidate sd3)\<lparr>tempEnd := 0, triggered := False\<rparr>))
   \<and> (\<not> triggered sd0 \<longrightarrow> snd (fst (Detect infer sd0 pcm)) \<noteq> Some UnexpectedSpeechEnd)"
proof (intro conjI impI)
  assume a: "loop_head infer pcm sd0 i sd [] \<and>
    i < int (length pcm) - windowSize sd \<and>
    infer (SampleRate (cfg sd)) (currSample sd) (state sd, ctx sd)
          (take (nat (windowSize sd)) (drop (nat i) pcm)) = (Inr p, st, cx) \<and>
    speech_start p (rearm p (advance (sd\<lparr>state := st, ctx := cx\<rparr>))) [] = (sd3, []) \<and>
    p < NegativeThreshold (cfg sd3) \<and> triggered sd3 \<and>
    \<not> wrap64 (currSample (mark_candidate sd3) - tempEnd (mark_candidate sd3))
        < minSilenceSamples (mark_candidate sd3)"
  let ?sd' = "(mark_candidate sd3)\<lparr>tempEnd := 0, triggered := False\<rparr>"
  from a have "loop_body p (sd\<lparr>state := st, ctx := cx\<rparr>) [] = Return UnexpectedSpeechEnd ?sd'"
    by (simp add: loop_body_def Let_def)
  with a have "detect_loop infer pcm i sd [] = (Inl UnexpectedSpeechEnd, ?sd')"
    using detect_loop_body_return [of i pcm sd infer p st cx "[]" UnexpectedSpeechEnd ?sd'] by simp
  with a have "detect_loop infer pcm 0 sd0 [] = (Inl UnexpectedSpeechEnd, ?sd')"
    using loop_head_resume [of infer pcm sd0 i sd "[]"] by simp
  moreover have "\<not> int (length pcm) < windowSize sd0"
    using a loop_head_enough [of infer pcm sd0 i sd "[]"] by blast
  ultimately show "Detect infer sd0 pcm = (([], Some UnexpectedSpeechEnd), ?sd')"
    by (simp add: Detect_def)
next
  assume nt: "\<not> triggered sd0"
  obtain r sd' where l: "detect_loop infer pcm 0 sd0 [] = (r, sd')" by (cases "detect_loop infer pcm 0 sd0 []")
  from detect_loop_no_unexpected_end [OF nt l] have "r \<noteq> Inl UnexpectedSpeechEnd" .
  with l show "snd (fst (Detect infer sd0 pcm)) \<noteq> Some UnexpectedSpeechEnd"
    by (cases r) (auto simp: Detect_def)
qed

text \<open>The first case: a detector left triggered by an earlier call meets a silent
  window. The second: the same detector after \<open>Reset\<close>.\<close>

theorem unexpected_speech_end_checked_witness:
  "Detect infer_first ((fresh cfg8k)\<lparr>currSample := 256, triggered := True\<rparr>) (buffer8k [0.1, 0]) =
     (([], Some UnexpectedSpeechEnd), (fresh cfg8k)\<lparr>currSample := 512\<rparr>)
   \<and> \<not> triggered (Reset ((fresh cfg8k)\<lparr>currSample := 256, triggered := True\<rparr>))
   \<and> snd (fst (Detect infer_first (Reset ((fresh cfg8k)\<lparr>currSample := 256, triggered := True\<rparr>))
                 (buffer8k [0.1, 0]))) \<noteq> Some UnexpectedSpeechEnd"
proof -
  let ?sd0 = "(fresh cfg8k)\<lparr>currSample := 256, triggered := True\<rparr>"
  let ?pcm = "buffer8k [0.1, 0]"
  let ?sd3 = "(fresh cfg8k)\<lparr>currSample := 512, triggered := True\<rparr>"
  have 1: "Detect infer_first ?sd0 ?pcm =
     (([], Some UnexpectedSpeechEnd), (mark_candidate ?sd3)\<lparr>tempEnd := 0, triggered := False\<rparr>)"
    using unexpected_speech_end_checked [of infer_first ?pcm ?sd0 0 ?sd0 "0.1"
        "state ?sd0" "ctx ?sd0" ?sd3]
      loop_head.first [of infer_first ?pcm ?sd0]
    by (simp add: run_defs)
  have nt: "\<not> triggered (Reset ?sd0)" by (simp add: Reset_def)
  have 2: "snd (fst (Detect infer_first (Reset ?sd0) ?pcm)) \<noteq> Some UnexpectedSpeechEnd"
    using unexpected_speech_end_checked [of infer_first ?pcm "Reset ?sd0" 0 "Reset ?sd0" 0 "[]" "[]" ?sd3] nt
    by blast
  from 1 have "Detect infer_first ?sd0 ?pcm = (([], Some UnexpectedSpeechEnd), (fresh cfg8k)\<lparr>currSample := 512\<rparr>)"
    by (simp add: mark_candidate_def fresh_def)
  with nt 2 show ?thesis by blast
qed

lemma loop_head_currSample:
  assumes "loop_head infer pcm sd0 i sd segments"
    and "0 \<le> currSample sd0" and "currSample sd0 + int (length pcm) < 2 ^ 63"
  shows "currSample sd = currSample sd0 + i"
  using assms
proof (induction rule: loop_head.induct)
  case first
  show ?case by simp
next
  case (later i sd segments speechProb st cx sd' segments')
  have i: "0 \<le> i" using later.hyps(1) by (auto dest: loop_head_index)
  have c: "currSample sd = currSample sd0 + i" using later by simp
  have "currSample sd' = wrap64 (currSample sd + windowSize sd)"
    using loop_body_Next_frame(4) [OF later.hyps(4)] by simp
  also have "\<dots> = currSample sd + windowSize sd"
    using i c later.hyps(2) later.prems windowSize_pos [of sd] by (intro wrap64_id) simp_all
  finally show ?case using c by simp
qed

lemma loop_body_tempEnd:
  assumes "loop_body p sd segments = Next sd' segments'"
    and "0 \<le> currSample sd" and "currSample sd + windowSize sd < 2 ^ 63"
    and "tempEnd sd = 0 \<or> windowSize sd \<le> tempEnd sd \<and> tempEnd sd \<le> currSample sd"
  shows "tempEnd sd' = 0 \<or> windowSize sd \<le> tempEnd sd' \<and> tempEnd sd' \<le> currSample sd'"
proof -
  have w: "wrap64 (currSample sd + windowSize sd) = currSample sd + windowSize sd"
    using assms(2,3) windowSize_pos [of sd] by (intro wrap64_id) simp_all
  show ?thesis
    using assms windowSize_pos [of sd]
    by (auto simp: body_defs w split: if_splits)
qed

lemma loop_head_tempEnd:
  assumes "loop_head infer pcm sd0 i sd segments"
    and "0 \<le> currSample sd0" and "currSample sd0 + int (length pcm) < 2 ^ 63"
    and "tempEnd sd0 = 0 \<or> windowSize sd0 \<le> tempEnd sd0 \<and> tempEnd sd0 \<le> currSample sd0"
  shows "tempEnd sd = 0 \<or> windowSize sd \<le> tempEnd sd \<and> tempEnd sd \<le> currSample sd"
  using assms
proof (induction rule: loop_head.induct)
  case first
  then show ?case by simp
next
  case (later i sd segments speechProb st cx sd' segments')
  let ?sd = "sd\<lparr>state := st, ctx := cx\<rparr>"
  have i: "0 \<le> i" using later.hyps(1) by (auto dest: loop_head_index)
  have c: "currSample sd = currSample sd0 + i"
    using loop_head_currSample [OF later.hyps(1)] later.prems by simp
  have "tempEnd sd' = 0 \<or> windowSize ?sd \<le> tempEnd sd' \<and> tempEnd sd' \<le> currSample sd'"
  proof (rule loop_body_tempEnd [OF later.hyps(4)])
    show "0 \<le> currSample ?sd" using c i later.prems by simp
    show "currSample ?sd + windowSize ?sd < 2 ^ 63" using c later.hyps(2) later.prems by simp
    show "tempEnd ?sd = 0 \<or> windowSize ?sd \<le> tempEnd ?sd \<and> tempEnd ?sd \<le> currSample ?sd"
      using later.IH later.prems by simp
  qed
  moreover have "windowSize sd' = windowSize sd"
    using loop_body_Next_frame(1) [OF later.hyps(4)] by (simp add: windowSize_def)
  ultimately show ?case by simp
qed

section \<open>The candidate for the end of a segment\<close>

text \<open>
  Claim C10. \<open>tempEnd\<close> is set to a candidate position only by
  \<open>sd.tempEnd = sd.currSample\<close>, after the iteration has added the window to
  \<open>currSample\<close>: the value set is the old \<open>currSample\<close> plus \<open>windowSize\<close>, hence at
  least \<open>windowSize\<close>, which is positive; for the first window after a reset it is
  \<open>windowSize\<close> itself. So whenever the loop condition is evaluated, and when \<open>Detect\<close>
  returns, \<open>tempEnd\<close> is either the sentinel 0 or a position of at least
  \<open>windowSize\<close>, provided this held on entry and \<open>currSample\<close> does not leave the range
  of \<open>int\<close>.
\<close>

theorem tempEnd_candidate_not_sentinel:
  "(0 \<le> currSample sd \<and> currSample sd + windowSize sd < 2 ^ 63 \<and>
    speech_start p (rearm p (advance sd)) segments = (sd3, segments3) \<and> tempEnd sd3 = 0
    \<longrightarrow> tempEnd (mark_candidate sd3) = currSample sd + windowSize sd \<and>
        windowSize sd \<le> tempEnd (mark_candidate sd3) \<and> 0 < windowSize sd)
   \<and> (loop_head infer pcm sd0 i sd1 segments1 \<and>
      0 \<le> currSample sd0 \<and> currSample sd0 + int (length pcm) < 2 ^ 63 \<and>
      (tempEnd sd0 = 0 \<or> windowSize sd0 \<le> tempEnd sd0 \<and> tempEnd sd0 \<le> currSample sd0)
    \<longrightarrow> tempEnd sd1 = 0 \<or> windowSize sd1 \<le> tempEnd sd1 \<and> tempEnd sd1 \<le> currSample sd1)
   \<and> (Detect infer sd0 pcm = (res, sd2) \<and>
      0 \<le> currSample sd0 \<and> currSample sd0 + int (length pcm) < 2 ^ 63 \<and>
      (tempEnd sd0 = 0 \<or> windowSize sd0 \<le> tempEnd sd0 \<and> tempEnd sd0 \<le> currSample sd0)
    \<longrightarrow> 0 \<le> currSample sd2 \<and>
        (tempEnd sd2 = 0 \<or> windowSize sd2 \<le> tempEnd sd2 \<and> tempEnd sd2 \<le> currSample sd2))"
proof (intro conjI impI)
  assume a: "0 \<le> currSample sd \<and> currSample sd + windowSize sd < 2 ^ 63 \<and>
    speech_start p (rearm p (advance sd)) segments = (sd3, segments3) \<and> tempEnd sd3 = 0"
  have w: "wrap64 (currSample sd + windowSize sd) = currSample sd + windowSize sd"
    using a windowSize_pos [of sd] by (intro wrap64_id) simp_all
  from a have "currSample sd3 = currSample sd + windowSize sd"
    by (auto simp: speech_start_def rearm_def advance_def Let_def w split: if_splits)
  with a show "tempEnd (mark_candidate sd3) = currSample sd + windowSize sd"
    by (simp add: mark_candidate_def)
  with a show "windowSize sd \<le> tempEnd (mark_candidate sd3)" by simp
  show "0 < windowSize sd" by (rule windowSize_pos)
next
  assume "loop_head infer pcm sd0 i sd1 segments1 \<and>
      0 \<le> currSample sd0 \<and> currSample sd0 + int (length pcm) < 2 ^ 63 \<and>
      (tempEnd sd0 = 0 \<or> windowSize sd0 \<le> tempEnd sd0 \<and> tempEnd sd0 \<le> currSample sd0)"
  then show "tempEnd sd1 = 0 \<or> windowSize sd1 \<le> tempEnd sd1 \<and> tempEnd sd1 \<le> currSample sd1"
    using loop_head_tempEnd [of infer pcm sd0 i sd1 segments1] by blast
next
  assume a: "Detect infer sd0 pcm = (res, sd2) \<and>
      0 \<le> currSample sd0 \<and> currSample sd0 + int (length pcm) < 2 ^ 63 \<and>
      (tempEnd sd0 = 0 \<or> windowSize sd0 \<le> tempEnd sd0 \<and> tempEnd sd0 \<le> currSample sd0)"
  have inv: "0 \<le> currSample sdx \<and>
      (tempEnd sdx = 0 \<or> windowSize sdx \<le> tempEnd sdx \<and> tempEnd sdx \<le> currSample sdx)"
    if "loop_head infer pcm sd0 ix sdx segmentsx" for ix sdx segmentsx
    using loop_head_tempEnd [OF that] loop_head_currSample [OF that] loop_head_index [OF that] a
    by simp
  have concl: "0 \<le> currSample sd2 \<and>
        (tempEnd sd2 = 0 \<or> windowSize sd2 \<le> tempEnd sd2 \<and> tempEnd sd2 \<le> currSample sd2)"
  proof (cases "int (length pcm) < windowSize sd0")
    case True
    with a have "sd2 = sd0" by (simp add: Detect_def)
    with a show ?thesis by simp
  next
    case False
    obtain r sd' where l: "detect_loop infer pcm 0 sd0 [] = (r, sd')"
      by (cases "detect_loop infer pcm 0 sd0 []")
    with a False have sd2: "sd2 = sd'" by (auto simp: Detect_def split: sum.splits)
    from detect_loop_cases [OF loop_head.first l]
    consider (fin) i' out where "loop_head infer pcm sd0 i' sd' out"
      | (fail) i' sd1 segments1 st cx where "loop_head infer pcm sd0 i' sd1 segments1"
          "sd' = sd1\<lparr>state := st, ctx := cx\<rparr>"
      | (ret) i' sd1 segments1 p st cx e where "loop_head infer pcm sd0 i' sd1 segments1"
          "i' < int (length pcm) - windowSize sd1"
          "loop_body p (sd1\<lparr>state := st, ctx := cx\<rparr>) segments1 = Return e sd'"
      by blast
    then show ?thesis
    proof cases
      case fin
      from inv [OF fin] sd2 show ?thesis by simp
    next
      case fail
      from inv [OF fail(1)] fail(2) sd2 show ?thesis by simp
    next
      case ret
      have c: "currSample sd1 = currSample sd0 + i'"
        using loop_head_currSample [OF ret(1)] a by simp
      have i': "0 \<le> i'" using loop_head_index [OF ret(1)] by simp
      have "currSample sd' = wrap64 (currSample sd1 + windowSize sd1)"
        using loop_body_Return_frame(4) [OF ret(3)] by simp
      also have "\<dots> = currSample sd1 + windowSize sd1"
        using c i' ret(2) a windowSize_pos [of sd1] by (intro wrap64_id) simp_all
      finally have "0 \<le> currSample sd'" using c i' a windowSize_pos [of sd1] by simp
      moreover have "tempEnd sd' = 0" using loop_body_Return_frame(9) [OF ret(3)] .
      ultimately show ?thesis using sd2 by simp
    qed
  qed
  from concl show "0 \<le> currSample sd2" by simp
  from concl show "tempEnd sd2 = 0 \<or> windowSize sd2 \<le> tempEnd sd2 \<and> tempEnd sd2 \<le> currSample sd2"
    by simp
qed


text \<open>A detector left triggered by an earlier call of one window meets a silent window,
  with 100 ms of silence required to close.\<close>

theorem tempEnd_candidate_not_sentinel_witness:
  "tempEnd (mark_candidate
      ((fresh (cfg8k\<lparr>MinSilenceDurationMs := 100\<rparr>))\<lparr>currSample := 512, triggered := True\<rparr>)) = 512
   \<and> loop_head infer_first (buffer8k [0.1, 0])
        ((fresh (cfg8k\<lparr>MinSilenceDurationMs := 100\<rparr>))\<lparr>currSample := 256, triggered := True\<rparr>) 256
        ((fresh (cfg8k\<lparr>MinSilenceDurationMs := 100\<rparr>))
            \<lparr>currSample := 512, triggered := True, tempEnd := 512\<rparr>) []
   \<and> Detect infer_first
        ((fresh (cfg8k\<lparr>MinSilenceDurationMs := 100\<rparr>))\<lparr>currSample := 256, triggered := True\<rparr>)
        (buffer8k [0.1, 0]) =
       (([], None), (fresh (cfg8k\<lparr>MinSilenceDurationMs := 100\<rparr>))
            \<lparr>currSample := 512, triggered := True, tempEnd := 512\<rparr>)
   \<and> windowSize ((fresh (cfg8k\<lparr>MinSilenceDurationMs := 100\<rparr>))
            \<lparr>currSample := 512, triggered := True, tempEnd := 512\<rparr>) \<le> 512"
proof -
  let ?c = "cfg8k\<lparr>MinSilenceDurationMs := 100\<rparr>"
  let ?sd0 = "(fresh ?c)\<lparr>currSample := 256, triggered := True\<rparr>"
  let ?sd3 = "(fresh ?c)\<lparr>currSample := 512, triggered := True\<rparr>"
  let ?sd1 = "(fresh ?c)\<lparr>currSample := 512, triggered := True, tempEnd := 512\<rparr>"
  let ?pcm = "buffer8k [0.1, 0]"
  have "loop_head infer_first ?pcm ?sd0 (0 + windowSize ?sd0) ?sd1 []"
    by (rule loop_head.later [OF loop_head.first, where speechProb = "0.1"
          and st = "state ?sd0" and cx = "ctx ?sd0"])
       (simp_all add: run_defs)
  then have h: "loop_head infer_first ?pcm ?sd0 256 ?sd1 []"
    by (simp add: windowSize_def fresh_def cfg8k_def)
  have d: "Detect infer_first ?sd0 ?pcm = (([], None), ?sd1)"
    by (simp add: run_defs)
  have s: "speech_start 0.1 (rearm 0.1 (advance ?sd0)) [] = (?sd3, [])"
    by (simp add: run_defs)
  have r: "0 \<le> currSample ?sd0 \<and> currSample ?sd0 + int (length ?pcm) < 2 ^ 63 \<and>
           currSample ?sd0 + windowSize ?sd0 < 2 ^ 63 \<and> tempEnd ?sd0 = 0 \<and> tempEnd ?sd3 = 0"
    by (simp add: run_defs)
  note t = tempEnd_candidate_not_sentinel [of ?sd0 "0.1" "[]" ?sd3 "[]" infer_first ?pcm ?sd0
      256 ?sd1 "[]" "([], None)" ?sd1]
  from t s r have 1: "tempEnd (mark_candidate ?sd3) = currSample ?sd0 + windowSize ?sd0"
    by blast
  from t h d r have 2: "tempEnd ?sd1 = 0 \<or> windowSize ?sd1 \<le> tempEnd ?sd1 \<and> tempEnd ?sd1 \<le> currSample ?sd1"
    by blast
  from 1 have "tempEnd (mark_candidate ?sd3) = 512"
    by (simp add: windowSize_def fresh_def cfg8k_def)
  moreover from 2 have "windowSize ?sd1 \<le> 512" by (simp add: fresh_def)
  ultimately show ?thesis using h d by blast
qed

lemma speechEndAt_pos:
  assumes "0 < tempEnd sd" and "0 \<le> speechPadSamples sd"
    and "tempEnd sd + speechPadSamples sd < 2 ^ 63" and "0 < SampleRate (cfg sd)"
  shows "0 < speechEndAt sd"
proof -
  have "wrap64 (tempEnd sd + speechPadSamples sd) = tempEnd sd + speechPadSamples sd"
    using assms by (intro wrap64_id) simp_all
  with assms show ?thesis by (simp add: speechEndAt_def)
qed

lemma closed_all:
  assumes "\<forall>s\<in>set (butlast segments). SpeechEndAt s \<noteq> 0"
    and "segments = [] \<or> SpeechEndAt (last segments) \<noteq> 0"
  shows "\<forall>s\<in>set segments. SpeechEndAt s \<noteq> 0"
proof (cases segments rule: rev_cases)
  case Nil
  then show ?thesis by simp
next
  case (snoc xs x)
  with assms show ?thesis by auto
qed

lemma loop_body_open_last:
  assumes b: "loop_body p sd segments = Next sd' segments'"
    and q1: "triggered sd \<longleftrightarrow> segments \<noteq> [] \<and> SpeechEndAt (last segments) = 0"
    and q2: "\<forall>s\<in>set (butlast segments). SpeechEndAt s \<noteq> 0"
    and q3: "triggered sd \<longrightarrow> tempEnd sd = 0 \<or> 0 < tempEnd sd \<and> tempEnd sd \<le> currSample sd"
    and r: "0 \<le> currSample sd" "0 \<le> speechPadSamples sd"
      "currSample sd + windowSize sd + speechPadSamples sd < 2 ^ 63" "0 < SampleRate (cfg sd)"
  shows "(triggered sd' \<longleftrightarrow> segments' \<noteq> [] \<and> SpeechEndAt (last segments') = 0)
       \<and> (\<forall>s\<in>set (butlast segments'). SpeechEndAt s \<noteq> 0)
       \<and> (triggered sd' \<longrightarrow> tempEnd sd' = 0 \<or> 0 < tempEnd sd' \<and> tempEnd sd' \<le> currSample sd')"
proof -
  have w: "wrap64 (currSample sd + windowSize sd) = currSample sd + windowSize sd"
    using r windowSize_pos [of sd] by (intro wrap64_id) simp_all
  obtain sd3 segments3 where s: "speech_start p (rearm p (advance sd)) segments = (sd3, segments3)"
    by (cases "speech_start p (rearm p (advance sd)) segments")
  have c3: "currSample sd3 = currSample sd + windowSize sd" and cfg3: "cfg sd3 = cfg sd"
    using s by (auto simp: speech_start_def rearm_def advance_def Let_def w split: if_splits)
  have p3: "speechPadSamples sd3 = speechPadSamples sd" using cfg3 by (simp add: speechPadSamples_def)
  have a1: "triggered sd3 \<longleftrightarrow> segments3 \<noteq> [] \<and> SpeechEndAt (last segments3) = 0"
    using s q1 by (auto simp: speech_start_def rearm_def advance_def Let_def split: if_splits)
  have a2: "\<forall>s\<in>set (butlast segments3). SpeechEndAt s \<noteq> 0"
    using s q2 closed_all [OF q2] q1
    by (auto simp: speech_start_def rearm_def advance_def Let_def butlast_append split: if_splits)
  have a3: "triggered sd3 \<longrightarrow> tempEnd sd3 = 0 \<or> 0 < tempEnd sd3 \<and> tempEnd sd3 \<le> currSample sd3"
    using s q3 w windowSize_pos [of sd]
    by (auto simp: speech_start_def rearm_def advance_def Let_def split: if_splits)
  show ?thesis
  proof (cases "p < NegativeThreshold (cfg sd3) \<and> triggered sd3")
    case False
    with b s have "sd' = sd3" "segments' = segments3" by (auto simp: loop_body_def)
    with a1 a2 a3 show ?thesis by simp
  next
    case True
    let ?sd4 = "mark_candidate sd3"
    have t4: "0 < tempEnd ?sd4 \<and> tempEnd ?sd4 \<le> currSample ?sd4"
      using a3 True c3 r windowSize_pos [of sd] by (auto simp: mark_candidate_def)
    have f4: "triggered ?sd4" "cfg ?sd4 = cfg sd" "currSample ?sd4 = currSample sd3"
      using True cfg3 by (auto simp: mark_candidate_def)
    show ?thesis
    proof (cases "wrap64 (currSample ?sd4 - tempEnd ?sd4) < minSilenceSamples ?sd4")
      case True
      with b s \<open>p < NegativeThreshold (cfg sd3) \<and> triggered sd3\<close>
      have "sd' = ?sd4" "segments' = segments3" by (auto simp: loop_body_def Let_def)
      moreover have "segments3 \<noteq> [] \<and> SpeechEndAt (last segments3) = 0"
        using a1 \<open>p < NegativeThreshold (cfg sd3) \<and> triggered sd3\<close> by simp
      ultimately show ?thesis using a2 t4 f4 by simp
    next
      case False
      have ne: "segments3 \<noteq> []" using a1 True by simp
      have e: "0 < speechEndAt ?sd4"
      proof (rule speechEndAt_pos)
        show "0 < tempEnd ?sd4" using t4 by simp
        show "0 \<le> speechPadSamples ?sd4" using f4(2) r by (simp add: speechPadSamples_def)
        show "tempEnd ?sd4 + speechPadSamples ?sd4 < 2 ^ 63"
          using t4 f4 c3 r by (simp add: speechPadSamples_def)
        show "0 < SampleRate (cfg ?sd4)" using f4 r by simp
      qed
      from b s True False ne
      have "sd' = ?sd4\<lparr>tempEnd := 0, triggered := False\<rparr>"
        "segments' = set_last_end (speechEndAt ?sd4) segments3"
        by (auto simp: loop_body_def Let_def)
      with ne e a2 show ?thesis by (simp add: set_last_end_snoc)
    qed
  qed
qed


lemma last_filter_keep: "xs \<noteq> [] \<Longrightarrow> P (last xs) \<Longrightarrow> last (filter P xs) = last xs"
  by (induction xs rule: rev_induct) simp_all

lemma loop_head_open_last:
  assumes "loop_head infer pcm sd0 i sd segments"
    and "\<not> triggered sd0" and "0 \<le> currSample sd0" and "0 \<le> speechPadSamples sd0"
    and "currSample sd0 + int (length pcm) + speechPadSamples sd0 < 2 ^ 63"
    and "0 < SampleRate (cfg sd0)"
  shows "(triggered sd \<longleftrightarrow> segments \<noteq> [] \<and> SpeechEndAt (last segments) = 0)
       \<and> (\<forall>s\<in>set (butlast segments). SpeechEndAt s \<noteq> 0)
       \<and> (triggered sd \<longrightarrow> tempEnd sd = 0 \<or> 0 < tempEnd sd \<and> tempEnd sd \<le> currSample sd)"
  using assms
proof (induction rule: loop_head.induct)
  case first
  then show ?case by simp
next
  case (later i sd segments speechProb st cx sd' segments')
  let ?sd = "sd\<lparr>state := st, ctx := cx\<rparr>"
  have i: "0 \<le> i" using later.hyps(1) by (auto dest: loop_head_index)
  have c: "currSample sd = currSample sd0 + i"
    using loop_head_currSample [OF later.hyps(1)] later.prems by simp
  have g: "cfg sd = cfg sd0" using later.hyps(1) by (rule loop_head_cfg)
  have ih: "(triggered sd \<longleftrightarrow> segments \<noteq> [] \<and> SpeechEndAt (last segments) = 0)
       \<and> (\<forall>s\<in>set (butlast segments). SpeechEndAt s \<noteq> 0)
       \<and> (triggered sd \<longrightarrow> tempEnd sd = 0 \<or> 0 < tempEnd sd \<and> tempEnd sd \<le> currSample sd)"
    using later.IH later.prems by simp
  show ?case
  proof (rule loop_body_open_last [OF later.hyps(4)])
    show "triggered ?sd \<longleftrightarrow> segments \<noteq> [] \<and> SpeechEndAt (last segments) = 0"
      using ih by simp
    show "\<forall>s\<in>set (butlast segments). SpeechEndAt s \<noteq> 0" using ih by simp
    show "triggered ?sd \<longrightarrow> tempEnd ?sd = 0 \<or> 0 < tempEnd ?sd \<and> tempEnd ?sd \<le> currSample ?sd"
      using ih by simp
    show "0 \<le> currSample ?sd" using c i later.prems by simp
    show "0 \<le> speechPadSamples ?sd" using g later.prems by (simp add: speechPadSamples_def)
    show "currSample ?sd + windowSize ?sd + speechPadSamples ?sd < 2 ^ 63"
      using c g later.hyps(2) later.prems by (simp add: speechPadSamples_def)
    show "0 < SampleRate (cfg ?sd)" using g later.prems by simp
  qed
qed

text \<open>The result of a call that returns no error.\<close>

lemma Detect_ok:
  assumes "Detect infer sd0 pcm = ((out, None), sd')"
  obtains i segments where "loop_head infer pcm sd0 i sd' segments"
    and "out = (if MinSpeechDurationMs (cfg sd') > 0 then filter (keep_segment sd') segments
                else segments)"
proof -
  from assms have ns: "\<not> int (length pcm) < windowSize sd0"
    by (auto simp: Detect_def split: if_splits)
  obtain r sd1 where l: "detect_loop infer pcm 0 sd0 [] = (r, sd1)"
    by (cases "detect_loop infer pcm 0 sd0 []")
  with assms ns obtain segments where r: "r = Inr segments" and sd1: "sd1 = sd'"
    and out: "out = (if MinSpeechDurationMs (cfg sd') > 0 then filter (keep_segment sd') segments
                     else segments)"
    by (cases r) (auto simp: Detect_def)
  from detect_loop_cases [OF loop_head.first l] r sd1
  obtain i where "loop_head infer pcm sd0 i sd' segments" by auto
  with out that show thesis by blast
qed

section \<open>The open segment\<close>

text \<open>A call that is entered inside a segment stays inside it and collects nothing, as
  long as it goes on: the only way out of the segment is the speech end, which finds the
  list of the call empty.\<close>

lemma loop_body_stays_triggered:
  assumes "loop_body p sd segments = Next sd' segments'" and "triggered sd" and "segments = []"
  shows "triggered sd' \<and> segments' = []"
  using assms by (auto simp: body_defs split: if_splits)

lemma loop_head_stays_triggered:
  assumes "loop_head infer pcm sd0 i sd segments" and "triggered sd0"
  shows "triggered sd \<and> segments = []"
  using assms
proof (induction rule: loop_head.induct)
  case first
  then show ?case by simp
next
  case (later i sd segments speechProb st cx sd' segments')
  then show ?case
    using loop_body_stays_triggered [of speechProb "sd\<lparr>state := st, ctx := cx\<rparr>" segments sd' segments']
    by simp
qed

lemma loop_head_open_emitted:
  assumes h: "loop_head infer pcm sd0 i sd segments"
    and inv: "triggered sd0 \<longleftrightarrow> emitted \<noteq> [] \<and> SpeechEndAt (last emitted) = 0"
    and r: "0 \<le> currSample sd0" "0 \<le> speechPadSamples sd0"
      "currSample sd0 + int (length pcm) + speechPadSamples sd0 < 2 ^ 63"
      "0 < SampleRate (cfg sd0)"
  shows "triggered sd \<longleftrightarrow> emitted @ segments \<noteq> [] \<and> SpeechEndAt (last (emitted @ segments)) = 0"
proof (cases "triggered sd0")
  case True
  with loop_head_stays_triggered [OF h] inv show ?thesis by simp
next
  case False
  from loop_head_open_last [OF h False r]
  have q: "triggered sd \<longleftrightarrow> segments \<noteq> [] \<and> SpeechEndAt (last segments) = 0" by simp
  show ?thesis
  proof (cases "segments = []")
    case True
    with q inv False show ?thesis by simp
  next
    case ne: False
    with q show ?thesis by simp
  qed
qed

lemma Detect_open_emitted:
  assumes d: "Detect infer sd0 pcm = ((out, None), sd')"
    and inv: "triggered sd0 \<longleftrightarrow> emitted \<noteq> [] \<and> SpeechEndAt (last emitted) = 0"
    and r: "0 \<le> currSample sd0" "0 \<le> speechPadSamples sd0"
      "currSample sd0 + int (length pcm) + speechPadSamples sd0 < 2 ^ 63"
      "0 < SampleRate (cfg sd0)"
  shows "triggered sd' \<longleftrightarrow> emitted @ out \<noteq> [] \<and> SpeechEndAt (last (emitted @ out)) = 0"
    and "cfg sd' = cfg sd0" and "currSample sd0 \<le> currSample sd'"
    and "currSample sd' \<le> currSample sd0 + int (length pcm)"
proof -
  from d obtain i segments where h: "loop_head infer pcm sd0 i sd' segments"
    and out: "out = (if MinSpeechDurationMs (cfg sd') > 0
                     then filter (keep_segment sd') segments else segments)"
    by (blast elim: Detect_ok)
  show "cfg sd' = cfg sd0" using h by (rule loop_head_cfg)
  have c: "currSample sd' = currSample sd0 + i"
    using loop_head_currSample [OF h] r by simp
  have i: "0 \<le> i" "i \<le> int (length pcm)" using loop_head_index [OF h] by auto
  show "currSample sd0 \<le> currSample sd'" "currSample sd' \<le> currSample sd0 + int (length pcm)"
    using c i by simp_all
  show "triggered sd' \<longleftrightarrow> emitted @ out \<noteq> [] \<and> SpeechEndAt (last (emitted @ out)) = 0"
  proof (cases "triggered sd0")
    case True
    with loop_head_stays_triggered [OF h] out inv show ?thesis by simp
  next
    case False
    from loop_head_open_last [OF h False r]
    have q1: "triggered sd' \<longleftrightarrow> segments \<noteq> [] \<and> SpeechEndAt (last segments) = 0"
      and q2: "\<forall>s\<in>set (butlast segments). SpeechEndAt s \<noteq> 0"
      by blast+
    have o: "triggered sd' \<longleftrightarrow> out \<noteq> [] \<and> SpeechEndAt (last out) = 0"
    proof (cases "MinSpeechDurationMs (cfg sd') > 0")
      case False
      with out q1 show ?thesis by simp
    next
      case True
      with out have o: "out = filter (keep_segment sd') segments" by simp
      show ?thesis
      proof (cases "triggered sd'")
        case True
        with q1 have ne: "segments \<noteq> []" and op: "SpeechEndAt (last segments) = 0" by simp_all
        from op have k: "keep_segment sd' (last segments)" by (simp add: keep_segment_def)
        from ne k have "last segments \<in> set out" unfolding o by simp
        moreover from ne k have "last out = last segments" unfolding o by (simp add: last_filter_keep)
        ultimately show ?thesis using True op by auto
      next
        case False
        with q1 have "segments = [] \<or> SpeechEndAt (last segments) \<noteq> 0" by simp
        from closed_all [OF q2 this] have "\<forall>s\<in>set out. SpeechEndAt s \<noteq> 0" unfolding o by simp
        then have "out = [] \<or> SpeechEndAt (last out) \<noteq> 0" by (cases "out = []") auto
        with False show ?thesis by simp
      qed
    qed
    show ?thesis
    proof (cases "out = []")
      case True
      with o inv False show ?thesis by simp
    next
      case ne: False
      with o show ?thesis by simp
    qed
  qed
qed

lemma Detect_calls_open_emitted:
  assumes "Detect_calls infer sd0 pcms = ((outs, None), sd)"
    and "triggered sd0 \<longleftrightarrow> emitted \<noteq> [] \<and> SpeechEndAt (last emitted) = 0"
    and "0 \<le> currSample sd0" and "0 \<le> speechPadSamples sd0"
    and "currSample sd0 + int (length (concat pcms)) + speechPadSamples sd0 < 2 ^ 63"
    and "0 < SampleRate (cfg sd0)"
  shows "(triggered sd \<longleftrightarrow> emitted @ outs \<noteq> [] \<and> SpeechEndAt (last (emitted @ outs)) = 0)
       \<and> cfg sd = cfg sd0 \<and> currSample sd0 \<le> currSample sd
       \<and> currSample sd \<le> currSample sd0 + int (length (concat pcms))"
  using assms
proof (induction pcms arbitrary: sd0 outs emitted)
  case Nil
  then show ?case by simp
next
  case (Cons pcm pcms)
  obtain out e1 sd1 where d: "Detect infer sd0 pcm = ((out, e1), sd1)"
    by (metis prod.collapse)
  with Cons.prems(1) have e1: "e1 = None" by (cases e1) auto
  obtain outs' e2 sd2 where c: "Detect_calls infer sd1 pcms = ((outs', e2), sd2)"
    by (metis prod.collapse)
  with d e1 Cons.prems(1) have e2: "e2 = None" and sd2: "sd2 = sd" and outs: "outs = out @ outs'"
    by auto
  have r1: "currSample sd0 + int (length pcm) + speechPadSamples sd0 < 2 ^ 63"
    using Cons.prems(5) by simp
  note one = Detect_open_emitted [OF d [unfolded e1] Cons.prems(2) Cons.prems(3) Cons.prems(4) r1 Cons.prems(6)]
  have p: "speechPadSamples sd1 = speechPadSamples sd0" using one(2) by (simp add: speechPadSamples_def)
  have "(triggered sd \<longleftrightarrow> (emitted @ out) @ outs' \<noteq> [] \<and> SpeechEndAt (last ((emitted @ out) @ outs')) = 0)
       \<and> cfg sd = cfg sd1 \<and> currSample sd1 \<le> currSample sd
       \<and> currSample sd \<le> currSample sd1 + int (length (concat pcms))"
  proof (rule Cons.IH)
    show "Detect_calls infer sd1 pcms = ((outs', None), sd)" using c e2 sd2 by simp
    show "triggered sd1 \<longleftrightarrow> emitted @ out \<noteq> [] \<and> SpeechEndAt (last (emitted @ out)) = 0"
      by (rule one(1))
    show "0 \<le> currSample sd1" using one(3) Cons.prems(3) by simp
    show "0 \<le> speechPadSamples sd1" using p Cons.prems(4) by simp
    show "currSample sd1 + int (length (concat pcms)) + speechPadSamples sd1 < 2 ^ 63"
      using one(4) p Cons.prems(5) by simp
    show "0 < SampleRate (cfg sd1)" using one(2) Cons.prems(6) by simp
  qed
  with one outs show ?case by simp
qed

text \<open>
  Claim C4, as amended. Successive calls of \<open>Detect\<close> on one detector are considered,
  the first of them entered with \<open>triggered = false\<close> (a new detector, or one after
  \<open>Reset\<close>). The segments emitted are those that the calls have returned, in order,
  followed by the list of the call that is running. As long as no call has returned an
  error, \<open>triggered\<close> holds if and only if a segment has been emitted and the last one
  emitted is open (\<open>SpeechEndAt = 0\<close>): when a call has returned, and whenever the next
  call evaluates its loop condition, that is on its entry and after every window it has
  processed. The sample rate is positive, the padding not negative, and \<open>currSample\<close>
  plus the buffers and the padding stays in the range of \<open>int\<close>.
\<close>

theorem triggered_iff_last_open_across_calls:
  "Detect_calls infer sd0 pcms = ((emitted, None), sd) \<and>
   loop_head infer pcm sd i sd1 segments \<and>
   \<not> triggered sd0 \<and> 0 \<le> currSample sd0 \<and> 0 \<le> speechPadSamples sd0 \<and>
   currSample sd0 + int (length (concat pcms)) + int (length pcm) + speechPadSamples sd0 < 2 ^ 63 \<and>
   0 < SampleRate (cfg sd0)
   \<longrightarrow> (triggered sd \<longleftrightarrow> emitted \<noteq> [] \<and> SpeechEndAt (last emitted) = 0)
     \<and> (triggered sd1 \<longleftrightarrow>
          emitted @ segments \<noteq> [] \<and> SpeechEndAt (last (emitted @ segments)) = 0)"
proof
  assume a: "Detect_calls infer sd0 pcms = ((emitted, None), sd) \<and>
   loop_head infer pcm sd i sd1 segments \<and>
   \<not> triggered sd0 \<and> 0 \<le> currSample sd0 \<and> 0 \<le> speechPadSamples sd0 \<and>
   currSample sd0 + int (length (concat pcms)) + int (length pcm) + speechPadSamples sd0 < 2 ^ 63 \<and>
   0 < SampleRate (cfg sd0)"
  then have c: "Detect_calls infer sd0 pcms = ((emitted, None), sd)"
    and h: "loop_head infer pcm sd i sd1 segments"
    and n: "\<not> triggered sd0" "0 \<le> currSample sd0" "0 \<le> speechPadSamples sd0" "0 < SampleRate (cfg sd0)"
    and b: "currSample sd0 + int (length (concat pcms)) + int (length pcm) + speechPadSamples sd0 < 2 ^ 63"
    by blast+
  have b0: "currSample sd0 + int (length (concat pcms)) + speechPadSamples sd0 < 2 ^ 63"
    using b by simp
  have s: "triggered sd0 \<longleftrightarrow> ([] :: Segment list) \<noteq> [] \<and> SpeechEndAt (last ([] :: Segment list)) = 0"
    using n(1) by simp
  from Detect_calls_open_emitted [OF c s n(2) n(3) b0 n(4)]
  have inv: "triggered sd \<longleftrightarrow> emitted \<noteq> [] \<and> SpeechEndAt (last emitted) = 0"
    and g: "cfg sd = cfg sd0" and lo: "currSample sd0 \<le> currSample sd"
    and hi: "currSample sd \<le> currSample sd0 + int (length (concat pcms))"
    by simp_all
  have p: "speechPadSamples sd = speechPadSamples sd0" using g by (simp add: speechPadSamples_def)
  have "triggered sd1 \<longleftrightarrow>
          emitted @ segments \<noteq> [] \<and> SpeechEndAt (last (emitted @ segments)) = 0"
  proof (rule loop_head_open_emitted [OF h inv])
    show "0 \<le> currSample sd" using lo n(2) by simp
    show "0 \<le> speechPadSamples sd" using p n(3) by simp
    show "currSample sd + int (length pcm) + speechPadSamples sd < 2 ^ 63" using hi p b by simp
    show "0 < SampleRate (cfg sd)" using g n(4) by simp
  qed
  with inv show "(triggered sd \<longleftrightarrow> emitted \<noteq> [] \<and> SpeechEndAt (last emitted) = 0)
     \<and> (triggered sd1 \<longleftrightarrow>
          emitted @ segments \<noteq> [] \<and> SpeechEndAt (last (emitted @ segments)) = 0)"
    by blast
qed

text \<open>Two calls on a new detector: the first ends inside speech, the second sees a
  window that neither starts nor ends speech. A third call has processed one such window.\<close>

theorem triggered_iff_last_open_across_calls_witness:
  "Detect_calls infer_first (fresh cfg8k) [buffer8k [0.9, 0], buffer8k [0.4, 0]] =
     (([\<lparr>SpeechStartAt = 0, SpeechEndAt = 0\<rparr>], None),
      (fresh cfg8k)\<lparr>currSample := 512, triggered := True\<rparr>)
   \<and> loop_head infer_first (buffer8k [0.4, 0.9, 0])
        ((fresh cfg8k)\<lparr>currSample := 512, triggered := True\<rparr>) 256
        ((fresh cfg8k)\<lparr>currSample := 768, triggered := True\<rparr>) []
   \<and> triggered ((fresh cfg8k)\<lparr>currSample := 512, triggered := True\<rparr>)
   \<and> triggered ((fresh cfg8k)\<lparr>currSample := 768, triggered := True\<rparr>)
   \<and> SpeechEndAt (last ([\<lparr>SpeechStartAt = 0, SpeechEndAt = 0\<rparr>] @ [])) = 0"
proof -
  let ?pcms = "[buffer8k [0.9, 0], buffer8k [0.4, 0]]"
  let ?pcm = "buffer8k [0.4, 0.9, 0]"
  let ?d0 = "fresh cfg8k"
  let ?d2 = "(fresh cfg8k)\<lparr>currSample := 512, triggered := True\<rparr>"
  let ?d3 = "(fresh cfg8k)\<lparr>currSample := 768, triggered := True\<rparr>"
  let ?sg = "[\<lparr>SpeechStartAt = 0, SpeechEndAt = 0\<rparr>]"
  have c: "Detect_calls infer_first ?d0 ?pcms = ((?sg, None), ?d2)"
    by (simp add: run_defs)
  have "loop_head infer_first ?pcm ?d2 (0 + windowSize ?d2) ?d3 []"
    by (rule loop_head.later [OF loop_head.first, where speechProb = "0.4"
          and st = "state (fresh cfg8k)" and cx = "ctx (fresh cfg8k)"])
       (simp_all add: run_defs)
  then have h: "loop_head infer_first ?pcm ?d2 256 ?d3 []"
    by (simp add: windowSize_def fresh_def cfg8k_def)
  have r: "\<not> triggered ?d0 \<and> 0 \<le> currSample ?d0 \<and> 0 \<le> speechPadSamples ?d0 \<and>
    currSample ?d0 + int (length (concat ?pcms)) + int (length ?pcm) + speechPadSamples ?d0 < 2 ^ 63 \<and>
    0 < SampleRate (cfg ?d0)"
    by (simp add: run_defs)
  from triggered_iff_last_open_across_calls [of infer_first ?d0 ?pcms ?sg ?d2 ?pcm 256 ?d3 "[]"] c h r
  have "(triggered ?d2 \<longleftrightarrow> ?sg \<noteq> [] \<and> SpeechEndAt (last ?sg) = 0)
     \<and> (triggered ?d3 \<longleftrightarrow> ?sg @ [] \<noteq> [] \<and> SpeechEndAt (last (?sg @ [])) = 0)"
    by blast
  with c h show ?thesis by simp
qed

text \<open>
  Claim C4 as stated fails when a call returns the error \<open>unexpected speech end\<close>. A
  first call ends inside speech: it returns one open segment and leaves the detector
  triggered. The next call sees silence: it clears \<open>triggered\<close> and fails, returning no
  segment, so that the segment emitted last, that of the first call, is still open while
  the detector is no longer triggered.
\<close>

theorem triggered_iff_last_open_counterexample:
  "Detect_calls infer_first (fresh cfg8k) [buffer8k [0.9, 0], buffer8k [0.1, 0]] =
     (([\<lparr>SpeechStartAt = 0, SpeechEndAt = 0\<rparr>], Some UnexpectedSpeechEnd),
      (fresh cfg8k)\<lparr>currSample := 512\<rparr>)
   \<and> Detect infer_first (fresh cfg8k) (buffer8k [0.9, 0]) =
       (([\<lparr>SpeechStartAt = 0, SpeechEndAt = 0\<rparr>], None),
        (fresh cfg8k)\<lparr>currSample := 256, triggered := True\<rparr>)
   \<and> Detect infer_first ((fresh cfg8k)\<lparr>currSample := 256, triggered := True\<rparr>)
        (buffer8k [0.1, 0]) =
       (([], Some UnexpectedSpeechEnd), (fresh cfg8k)\<lparr>currSample := 512\<rparr>)
   \<and> \<not> (triggered ((fresh cfg8k)\<lparr>currSample := 512\<rparr>) \<longleftrightarrow>
          [\<lparr>SpeechStartAt = 0, SpeechEndAt = 0\<rparr>] \<noteq> [] \<and>
          SpeechEndAt (last [\<lparr>SpeechStartAt = 0, SpeechEndAt = 0\<rparr>]) = 0)"
  by (simp add: run_defs)

lemma speechStartAt_exact:
  assumes "currSample sd = k + windowSize sd" and "0 \<le> k" and "k + windowSize sd < 2 ^ 63"
    and "0 \<le> speechPadSamples sd" and "speechPadSamples sd < 2 ^ 63"
  shows "speechStartAt sd =
         max 0 (real_of_int (k - speechPadSamples sd) / real_of_int (SampleRate (cfg sd)))"
proof -
  have "wrap64 (currSample sd - windowSize sd) = k"
    using assms windowSize_pos [of sd] by (simp add: wrap64_id)
  moreover have "wrap64 (k - speechPadSamples sd) = k - speechPadSamples sd"
    using assms windowSize_pos [of sd] by (intro wrap64_id) simp_all
  ultimately show ?thesis by (simp add: speechStartAt_def Let_def max_def)
qed

lemma speechEndAt_exact:
  assumes "0 \<le> tempEnd sd" and "0 \<le> speechPadSamples sd"
    and "tempEnd sd + speechPadSamples sd < 2 ^ 63"
  shows "speechEndAt sd =
         real_of_int (tempEnd sd + speechPadSamples sd) / real_of_int (SampleRate (cfg sd))"
proof -
  have "wrap64 (tempEnd sd + speechPadSamples sd) = tempEnd sd + speechPadSamples sd"
    using assms by (intro wrap64_id) simp_all
  then show ?thesis by (simp add: speechEndAt_def)
qed

lemma loop_body_stamps:
  fixes c i :: int and sd :: Detector
  defines "W \<equiv> windowSize sd"
  defines "stamped \<equiv> \<lambda>j s. \<exists>a b. 0 \<le> a \<and> a < j \<and> 0 < b \<and> b \<le> j \<and> W dvd a \<and> W dvd b \<and>
      SpeechStartAt s = max 0 (real_of_int (c + a - speechPadSamples sd)
                               / real_of_int (SampleRate (cfg sd))) \<and>
      (SpeechEndAt s = 0 \<or>
       SpeechEndAt s = real_of_int (c + b + speechPadSamples sd)
                       / real_of_int (SampleRate (cfg sd)))"
  defines "pending \<equiv> \<lambda>j t. t = 0 \<or> (\<exists>b. 0 < b \<and> b \<le> j \<and> W dvd b \<and> t = c + b)"
  assumes bd: "loop_body p sd segments = Next sd' segments'"
    and cs: "currSample sd = c + i" "0 \<le> c" "0 \<le> i" "W dvd i"
    and r: "0 \<le> speechPadSamples sd" "c + i + W + speechPadSamples sd < 2 ^ 63"
    and g: "\<forall>s\<in>set segments. stamped i s"
    and t: "segments \<noteq> [] \<longrightarrow> pending i (tempEnd sd)"
  shows "(\<forall>s\<in>set segments'. stamped (i + W) s) \<and> (segments' \<noteq> [] \<longrightarrow> pending (i + W) (tempEnd sd'))"
proof -
  have Wpos: "0 < W" unfolding W_def by (rule windowSize_pos)
  have w: "wrap64 (currSample sd + windowSize sd) = c + i + W"
    using cs r Wpos unfolding W_def by (simp add: wrap64_id)
  have mono: "stamped (i + W) s" if "stamped i s" for s
    using that Wpos unfolding stamped_def by fastforce
  have pmono: "pending (i + W) x" if "pending i x" for x
    using that Wpos unfolding pending_def by fastforce
  have pnew: "pending (i + W) (c + i + W)"
    using Wpos cs unfolding pending_def by (auto intro!: exI [of _ "i + W"])
  obtain sd3 segments3 where s: "speech_start p (rearm p (advance sd)) segments = (sd3, segments3)"
    by (cases "speech_start p (rearm p (advance sd)) segments")
  have c3: "currSample sd3 = c + i + W" and cfg3: "cfg sd3 = cfg sd"
    using s by (auto simp: speech_start_def rearm_def advance_def Let_def w split: if_splits)
  have l3: "windowSize sd3 = W" "speechPadSamples sd3 = speechPadSamples sd"
    using cfg3 unfolding W_def by (simp_all add: windowSize_def speechPadSamples_def)
  have g3: "\<forall>s\<in>set segments3. stamped (i + W) s"
  proof (cases "p \<ge> Threshold (cfg sd) \<and> \<not> triggered sd")
    case False
    with s have "segments3 = segments"
      by (auto simp: speech_start_def rearm_def advance_def Let_def split: if_splits)
    with g mono show ?thesis by simp
  next
    case True
    let ?sd' = "(rearm p (advance sd))\<lparr>triggered := True\<rparr>"
    from True s have seg: "segments3 = segments @ [\<lparr>SpeechStartAt = speechStartAt ?sd', SpeechEndAt = 0\<rparr>]"
      by (auto simp: speech_start_def rearm_def advance_def Let_def split: if_splits)
    have "speechStartAt ?sd' = max 0 (real_of_int (i + c - speechPadSamples ?sd')
              / real_of_int (SampleRate (cfg ?sd')))"
    proof (rule speechStartAt_exact)
      show "currSample ?sd' = i + c + windowSize ?sd'"
        using w by (simp add: rearm_def advance_def W_def)
      show "0 \<le> i + c" using cs by simp
      show "i + c + windowSize ?sd' < 2 ^ 63" using r by (simp add: rearm_def advance_def W_def)
      show "0 \<le> speechPadSamples ?sd'" using r by (simp add: rearm_def advance_def)
      show "speechPadSamples ?sd' < 2 ^ 63" using r cs Wpos by (simp add: rearm_def advance_def)
    qed
    then have "speechStartAt ?sd' = max 0 (real_of_int (c + i - speechPadSamples sd)
              / real_of_int (SampleRate (cfg sd)))"
      by (simp add: rearm_def advance_def add.commute)
    then have "stamped (i + W) \<lparr>SpeechStartAt = speechStartAt ?sd', SpeechEndAt = 0\<rparr>"
      unfolding stamped_def using cs Wpos
      by (intro exI [of _ i] exI [of _ W]) simp
    with seg g mono show ?thesis by simp
  qed
  have t3: "segments3 \<noteq> [] \<longrightarrow> pending (i + W) (tempEnd sd3)"
  proof (cases "p \<ge> Threshold (cfg sd)")
    case True
    with s have "tempEnd sd3 = 0"
      by (auto simp: speech_start_def rearm_def advance_def Let_def split: if_splits)
    then show ?thesis by (simp add: pending_def)
  next
    case False
    with s have "segments3 = segments" "tempEnd sd3 = tempEnd sd"
      by (auto simp: speech_start_def rearm_def advance_def Let_def split: if_splits)
    with t pmono show ?thesis by simp
  qed
  show ?thesis
  proof (cases "p < NegativeThreshold (cfg sd3) \<and> triggered sd3")
    case False
    with bd s have "sd' = sd3" "segments' = segments3" by (auto simp: loop_body_def)
    with g3 t3 show ?thesis by simp
  next
    case True
    let ?sd4 = "mark_candidate sd3"
    have f4: "cfg ?sd4 = cfg sd" "currSample ?sd4 = c + i + W"
      using cfg3 c3 by (auto simp: mark_candidate_def)
    have t4: "segments3 \<noteq> [] \<longrightarrow> tempEnd ?sd4 \<noteq> 0 \<and> pending (i + W) (tempEnd ?sd4)"
      using t3 c3 pnew cs Wpos by (auto simp: mark_candidate_def)
    show ?thesis
    proof (cases "wrap64 (currSample ?sd4 - tempEnd ?sd4) < minSilenceSamples ?sd4")
      case True
      with bd s \<open>p < NegativeThreshold (cfg sd3) \<and> triggered sd3\<close>
      have "sd' = ?sd4" "segments' = segments3" by (auto simp: loop_body_def Let_def)
      with g3 t4 show ?thesis by simp
    next
      case False
      with bd s True have ne: "segments3 \<noteq> []"
        by (auto simp: loop_body_def Let_def split: if_splits)
      with bd s True False
      have sd': "sd' = ?sd4\<lparr>tempEnd := 0, triggered := False\<rparr>"
        and segs': "segments' = set_last_end (speechEndAt ?sd4) segments3"
        by (auto simp: loop_body_def Let_def)
      from t4 ne obtain b where b: "0 < b" "b \<le> i + W" "W dvd b" "tempEnd ?sd4 = c + b"
        unfolding pending_def by auto
      have "speechEndAt ?sd4 = real_of_int (tempEnd ?sd4 + speechPadSamples ?sd4)
              / real_of_int (SampleRate (cfg ?sd4))"
      proof (rule speechEndAt_exact)
        show "0 \<le> tempEnd ?sd4" using b cs by simp
        show "0 \<le> speechPadSamples ?sd4" using f4 r by (simp add: speechPadSamples_def)
        show "tempEnd ?sd4 + speechPadSamples ?sd4 < 2 ^ 63"
          using b f4 r by (simp add: speechPadSamples_def)
      qed
      then have e: "speechEndAt ?sd4 = real_of_int (c + b + speechPadSamples sd)
              / real_of_int (SampleRate (cfg sd))"
        using b f4 by (simp add: speechPadSamples_def)
      from g3 ne have "stamped (i + W) (last segments3)" by simp
      then have "stamped (i + W) ((last segments3)\<lparr>SpeechEndAt := speechEndAt ?sd4\<rparr>)"
        unfolding stamped_def using b e by auto
      moreover have "\<forall>s\<in>set (butlast segments3). stamped (i + W) s"
        using g3 by (auto dest: in_set_butlastD)
      ultimately have "\<forall>s\<in>set segments'. stamped (i + W) s"
        using ne segs' by (auto simp: set_last_end_snoc)
      moreover have "pending (i + W) (tempEnd sd')" using sd' by (simp add: pending_def)
      ultimately show ?thesis by simp
    qed
  qed
qed


lemma loop_head_stamps:
  assumes h: "loop_head infer pcm sd0 i sd segments"
    and r: "0 \<le> currSample sd0" "0 \<le> speechPadSamples sd0"
      "currSample sd0 + int (length pcm) + speechPadSamples sd0 < 2 ^ 63"
  shows "(\<forall>s\<in>set segments. \<exists>a b. 0 \<le> a \<and> a < i \<and> 0 < b \<and> b \<le> i \<and>
            windowSize sd0 dvd a \<and> windowSize sd0 dvd b \<and>
            SpeechStartAt s = max 0 (real_of_int (currSample sd0 + a - speechPadSamples sd0)
                                     / real_of_int (SampleRate (cfg sd0))) \<and>
            (SpeechEndAt s = 0 \<or>
             SpeechEndAt s = real_of_int (currSample sd0 + b + speechPadSamples sd0)
                             / real_of_int (SampleRate (cfg sd0))))
       \<and> (segments \<noteq> [] \<longrightarrow> tempEnd sd = 0 \<or>
            (\<exists>b. 0 < b \<and> b \<le> i \<and> windowSize sd0 dvd b \<and> tempEnd sd = currSample sd0 + b))"
  using h
proof (induction rule: loop_head.induct)
  case first
  show ?case by simp
next
  case (later i sd segments speechProb st cx sd' segments')
  let ?sd = "sd\<lparr>state := st, ctx := cx\<rparr>"
  have i: "0 \<le> i" using later.hyps(1) by (auto dest: loop_head_index)
  have c: "currSample sd = currSample sd0 + i"
    using loop_head_currSample [OF later.hyps(1)] r by simp
  have g: "cfg sd = cfg sd0" using later.hyps(1) by (rule loop_head_cfg)
  have l: "windowSize ?sd = windowSize sd0" "speechPadSamples ?sd = speechPadSamples sd0"
    "cfg ?sd = cfg sd0" "windowSize sd = windowSize sd0"
    using g by (simp_all add: windowSize_def speechPadSamples_def)
  have d: "windowSize sd0 dvd i" using later.hyps(1) by (rule loop_head_dvd)
  have "currSample sd0 + i + windowSize ?sd + speechPadSamples ?sd < 2 ^ 63"
    using later.hyps(2) r l by simp
  from loop_body_stamps [OF later.hyps(4), of "currSample sd0" i, unfolded l]
    c r(1) i d r(2) this [unfolded l] later.IH
  show ?case unfolding l by simp
qed

section \<open>The origin of the timestamps\<close>

text \<open>
  Claim C1, as amended. The timestamps of the segments that a call of \<open>Detect\<close> returns
  count from the point at which \<open>currSample\<close> was 0, that is from the creation of the
  detector or its last \<open>Reset\<close>, not from the start of the buffer of the call: if the
  call is entered with \<open>currSample = c\<close>, every returned segment starts at
  \<open>max 0 ((c + a - speechPadSamples) / SampleRate)\<close> for the offset \<open>a\<close> of a window of
  the buffer, and it is open or ends at \<open>(c + b + speechPadSamples) / SampleRate\<close> for
  the offset \<open>b\<close> of the end of a window of the buffer. The timestamps are relative to
  the buffer when \<open>c = 0\<close>. The padding is not negative, and \<open>c\<close> plus the buffer and
  the padding stays in the range of \<open>int\<close>.
\<close>

theorem timestamps_count_from_reset:
  "Detect infer sd0 pcm = ((out, None), sd') \<and> s \<in> set out \<and>
   0 \<le> currSample sd0 \<and> 0 \<le> speechPadSamples sd0 \<and>
   currSample sd0 + int (length pcm) + speechPadSamples sd0 < 2 ^ 63
   \<longrightarrow> (\<exists>a b. 0 \<le> a \<and> a < int (length pcm) \<and> 0 < b \<and> b \<le> int (length pcm) \<and>
          windowSize sd0 dvd a \<and> windowSize sd0 dvd b \<and>
          SpeechStartAt s = max 0 (real_of_int (currSample sd0 + a - speechPadSamples sd0)
                                   / real_of_int (SampleRate (cfg sd0))) \<and>
          (SpeechEndAt s = 0 \<or>
           SpeechEndAt s = real_of_int (currSample sd0 + b + speechPadSamples sd0)
                           / real_of_int (SampleRate (cfg sd0))))"
proof
  assume a: "Detect infer sd0 pcm = ((out, None), sd') \<and> s \<in> set out \<and>
   0 \<le> currSample sd0 \<and> 0 \<le> speechPadSamples sd0 \<and>
   currSample sd0 + int (length pcm) + speechPadSamples sd0 < 2 ^ 63"
  then obtain i segments where h: "loop_head infer pcm sd0 i sd' segments"
    and out: "out = (if MinSpeechDurationMs (cfg sd') > 0
                     then filter (keep_segment sd') segments else segments)"
    by (blast elim: Detect_ok)
  from out a have m: "s \<in> set segments" by (auto split: if_splits)
  have i: "i \<le> int (length pcm)" using loop_head_index [OF h] by auto
  from loop_head_stamps [OF h] a m
  obtain a' b' where "0 \<le> a'" "a' < i" "0 < b'" "b' \<le> i"
    "windowSize sd0 dvd a'" "windowSize sd0 dvd b'"
    "SpeechStartAt s = max 0 (real_of_int (currSample sd0 + a' - speechPadSamples sd0)
                                   / real_of_int (SampleRate (cfg sd0)))"
    "SpeechEndAt s = 0 \<or>
           SpeechEndAt s = real_of_int (currSample sd0 + b' + speechPadSamples sd0)
                           / real_of_int (SampleRate (cfg sd0))"
    by blast
  with i show "\<exists>a b. 0 \<le> a \<and> a < int (length pcm) \<and> 0 < b \<and> b \<le> int (length pcm) \<and>
          windowSize sd0 dvd a \<and> windowSize sd0 dvd b \<and>
          SpeechStartAt s = max 0 (real_of_int (currSample sd0 + a - speechPadSamples sd0)
                                   / real_of_int (SampleRate (cfg sd0))) \<and>
          (SpeechEndAt s = 0 \<or>
           SpeechEndAt s = real_of_int (currSample sd0 + b + speechPadSamples sd0)
                           / real_of_int (SampleRate (cfg sd0)))"
    by (intro exI [of _ a'] exI [of _ b']) simp
qed

text \<open>
  Claim C1 as stated fails for the second of two calls without a \<open>Reset\<close> between them.
  At 8000 Hz, with a minimum speech duration of 10 ms, the same buffer (a window of
  speech, a window of silence, and a last window that is not processed) is passed twice
  to the same detector; the model gives the same probabilities both times. The first
  call returns the segment from 0 s to 0.064 s and consumes 512 samples; the second
  returns the segment from 0.064 s to 0.128 s, offset by those 512 samples.
\<close>

theorem timestamps_relative_to_buffer_counterexample:
  "Detect infer_first (fresh (cfg8k\<lparr>MinSpeechDurationMs := 10\<rparr>)) (buffer8k [0.9, 0.1, 0]) =
     (([\<lparr>SpeechStartAt = 0, SpeechEndAt = 0.064\<rparr>], None),
      (fresh (cfg8k\<lparr>MinSpeechDurationMs := 10\<rparr>))\<lparr>currSample := 512\<rparr>)
   \<and> Detect infer_first ((fresh (cfg8k\<lparr>MinSpeechDurationMs := 10\<rparr>))\<lparr>currSample := 512\<rparr>)
        (buffer8k [0.9, 0.1, 0]) =
     (([\<lparr>SpeechStartAt = 0.064, SpeechEndAt = 0.128\<rparr>], None),
      (fresh (cfg8k\<lparr>MinSpeechDurationMs := 10\<rparr>))\<lparr>currSample := 1024\<rparr>)"
  by (simp add: run_defs)

text \<open>The second of these two calls.\<close>

theorem timestamps_count_from_reset_witness:
  "Detect infer_first ((fresh (cfg8k\<lparr>MinSpeechDurationMs := 10\<rparr>))\<lparr>currSample := 512\<rparr>)
        (buffer8k [0.9, 0.1, 0]) =
     (([\<lparr>SpeechStartAt = 0.064, SpeechEndAt = 0.128\<rparr>], None),
      (fresh (cfg8k\<lparr>MinSpeechDurationMs := 10\<rparr>))\<lparr>currSample := 1024\<rparr>)
   \<and> (\<exists>a b. 0 \<le> a \<and> a < 768 \<and> 0 < b \<and> b \<le> 768 \<and> (256::int) dvd a \<and> 256 dvd b \<and>
          (0.064::real) = max 0 (real_of_int (512 + a - 0) / 8000) \<and>
          ((0.128::real) = 0 \<or> 0.128 = real_of_int (512 + b + 0) / 8000))"
proof -
  let ?d0 = "(fresh (cfg8k\<lparr>MinSpeechDurationMs := 10\<rparr>))\<lparr>currSample := 512\<rparr>"
  let ?d1 = "(fresh (cfg8k\<lparr>MinSpeechDurationMs := 10\<rparr>))\<lparr>currSample := 1024\<rparr>"
  let ?pcm = "buffer8k [0.9, 0.1, 0]"
  let ?sg = "\<lparr>SpeechStartAt = 0.064, SpeechEndAt = 0.128\<rparr>"
  have d: "Detect infer_first ?d0 ?pcm = (([?sg], None), ?d1)"
    by (simp add: run_defs)
  have r: "?sg \<in> set [?sg] \<and> 0 \<le> currSample ?d0 \<and> 0 \<le> speechPadSamples ?d0 \<and>
           currSample ?d0 + int (length ?pcm) + speechPadSamples ?d0 < 2 ^ 63"
    by (simp add: run_defs)
  have v: "currSample ?d0 = 512" "speechPadSamples ?d0 = 0" "int (length ?pcm) = 768"
    "windowSize ?d0 = 256" "SampleRate (cfg ?d0) = 8000"
    "SpeechStartAt ?sg = 0.064" "SpeechEndAt ?sg = 0.128"
    by (simp_all add: run_defs)
  from timestamps_count_from_reset [of infer_first ?d0 ?pcm "[?sg]" ?d1 ?sg] d r
  have "\<exists>a b. 0 \<le> a \<and> a < int (length ?pcm) \<and> 0 < b \<and> b \<le> int (length ?pcm) \<and>
          windowSize ?d0 dvd a \<and> windowSize ?d0 dvd b \<and>
          SpeechStartAt ?sg = max 0 (real_of_int (currSample ?d0 + a - speechPadSamples ?d0)
                                   / real_of_int (SampleRate (cfg ?d0))) \<and>
          (SpeechEndAt ?sg = 0 \<or>
           SpeechEndAt ?sg = real_of_int (currSample ?d0 + b + speechPadSamples ?d0)
                           / real_of_int (SampleRate (cfg ?d0)))"
    by blast
  then have "\<exists>a b. 0 \<le> a \<and> a < 768 \<and> 0 < b \<and> b \<le> 768 \<and> (256::int) dvd a \<and> 256 dvd b \<and>
          (0.064::real) = max 0 (real_of_int (512 + a - 0) / 8000) \<and>
          ((0.128::real) = 0 \<or> 0.128 = real_of_int (512 + b + 0) / 8000)"
    unfolding v by simp
  with d show ?thesis by blast
qed






lemma cfg_restore: "cfg X = c \<Longrightarrow> X\<lparr>cfg := c\<rparr> = X"
  by (cases X) simp



section \<open>Padding\<close>




lemma length_set_last_end [simp]: "length (set_last_end e segments) = length segments"
  by (simp add: set_last_end_def)

lemma loop_body_neg_mono:
  assumes cfgs: "cfg sdB = (cfg sdA)\<lparr>NegativeThreshold := nB\<rparr>" "NegativeThreshold (cfg sdA) \<le> nB"
    and same: "currSample sdB = currSample sdA"
    and rng: "0 \<le> currSample sdA" "currSample sdA + windowSize sdA < 2 ^ 63"
    and tA: "tempEnd sdA = 0 \<or> 0 < tempEnd sdA \<and> tempEnd sdA \<le> currSample sdA"
    and tB: "tempEnd sdB = 0 \<or> 0 < tempEnd sdB \<and> tempEnd sdB \<le> currSample sdB"
    and inv1: "triggered sdB \<longrightarrow> triggered sdA"
    and inv2: "triggered sdB \<and> tempEnd sdA \<noteq> 0 \<longrightarrow> tempEnd sdB \<noteq> 0 \<and> tempEnd sdB \<le> tempEnd sdA"
    and neA: "triggered sdA \<longrightarrow> segmentsA \<noteq> []"
    and neB: "triggered sdB \<longrightarrow> segmentsB \<noteq> []"
    and len: "length segmentsA \<le> length segmentsB"
  shows "\<exists>sdA' segmentsA' sdB' segmentsB'.
           loop_body p sdA segmentsA = Next sdA' segmentsA' \<and>
           loop_body p sdB segmentsB = Next sdB' segmentsB' \<and>
           (triggered sdB' \<longrightarrow> triggered sdA') \<and>
           (triggered sdB' \<and> tempEnd sdA' \<noteq> 0 \<longrightarrow> tempEnd sdB' \<noteq> 0 \<and> tempEnd sdB' \<le> tempEnd sdA') \<and>
           length segmentsA' \<le> length segmentsB'"
proof -
  define W where "W = windowSize sdA"
  define ms where "ms = minSilenceSamples sdA"
  define c where "c = currSample sdA + W"
  define th where "th = Threshold (cfg sdA)"
  define nA where "nA = NegativeThreshold (cfg sdA)"
  have Wpos: "0 < W" unfolding W_def by (rule windowSize_pos)
  have cpos: "0 < c" "c < 2 ^ 63" using rng Wpos by (simp_all add: c_def W_def)
  have loc: "windowSize sdB = W" "minSilenceSamples sdB = ms" "Threshold (cfg sdB) = th"
    "NegativeThreshold (cfg sdB) = nB"
    using cfgs by (simp_all add: W_def ms_def th_def windowSize_def minSilenceSamples_def)
  have w: "wrap64 (currSample sdA + W) = c"
    using cpos by (simp add: c_def wrap64_id)
  have d: "wrap64 (c - t) = c - t" if "0 \<le> t" "t \<le> c" for t
    using that cpos by (intro wrap64_id) simp_all
  obtain A3 sA3 where sa: "speech_start p (rearm p (advance sdA)) segmentsA = (A3, sA3)"
    by (cases "speech_start p (rearm p (advance sdA)) segmentsA")
  obtain B3 sB3 where sb: "speech_start p (rearm p (advance sdB)) segmentsB = (B3, sB3)"
    by (cases "speech_start p (rearm p (advance sdB)) segmentsB")
  have fA: "currSample A3 = c" "cfg A3 = cfg sdA"
    "triggered A3 \<longleftrightarrow> triggered sdA \<or> th \<le> p"
    "tempEnd A3 = (if th \<le> p then 0 else tempEnd sdA)"
    "length sA3 = (if th \<le> p \<and> \<not> triggered sdA then Suc (length segmentsA) else length segmentsA)"
    "triggered A3 \<longrightarrow> sA3 \<noteq> []"
    using sa neA
    by (auto simp: speech_start_def rearm_def advance_def Let_def w W_def [symmetric]
        th_def [symmetric] split: if_splits)
  have fB: "currSample B3 = c" "cfg B3 = cfg sdB"
    "triggered B3 \<longleftrightarrow> triggered sdB \<or> th \<le> p"
    "tempEnd B3 = (if th \<le> p then 0 else tempEnd sdB)"
    "length sB3 = (if th \<le> p \<and> \<not> triggered sdB then Suc (length segmentsB) else length segmentsB)"
    "triggered B3 \<longrightarrow> sB3 \<noteq> []"
    using sb neB
    by (auto simp: speech_start_def rearm_def advance_def Let_def w loc same split: if_splits)
  have len3: "length sA3 \<le> length sB3" using fA(5) fB(5) len inv1 by auto
  have i1: "triggered B3 \<longrightarrow> triggered A3" using fA(3) fB(3) inv1 by auto
  have i2: "triggered B3 \<and> tempEnd A3 \<noteq> 0 \<longrightarrow> tempEnd B3 \<noteq> 0 \<and> tempEnd B3 \<le> tempEnd A3"
    using fA(3,4) fB(3,4) inv2 inv1 by (auto split: if_splits)
  have rA: "tempEnd A3 = 0 \<or> 0 < tempEnd A3 \<and> tempEnd A3 \<le> c"
    using fA(4) tA Wpos by (auto simp: c_def split: if_splits)
  have rB: "tempEnd B3 = 0 \<or> 0 < tempEnd B3 \<and> tempEnd B3 \<le> c"
    using fB(4) tB same Wpos by (auto simp: c_def split: if_splits)
  define eA where "eA = (if tempEnd A3 = 0 then c else tempEnd A3)"
  define eB where "eB = (if tempEnd B3 = 0 then c else tempEnd B3)"
  have mA: "tempEnd (mark_candidate A3) = eA" "currSample (mark_candidate A3) = c"
    "minSilenceSamples (mark_candidate A3) = ms" "triggered (mark_candidate A3) = triggered A3"
    using fA(1,2) by (simp_all add: mark_candidate_def eA_def ms_def minSilenceSamples_def)
  have mB: "tempEnd (mark_candidate B3) = eB" "currSample (mark_candidate B3) = c"
    "minSilenceSamples (mark_candidate B3) = ms" "triggered (mark_candidate B3) = triggered B3"
    using fB(1,2) loc cfgs(1)
    by (simp_all add: mark_candidate_def eB_def ms_def minSilenceSamples_def)
  have eAr: "0 < eA" "eA \<le> c" using rA cpos by (auto simp: eA_def)
  have eBr: "0 < eB" "eB \<le> c" using rB cpos by (auto simp: eB_def)
  have dA: "wrap64 (c - eA) = c - eA" using eAr by (intro d) simp_all
  have dB: "wrap64 (c - eB) = c - eB" using eBr by (intro d) simp_all
  have bodyA: "loop_body p sdA segmentsA =
      (if p < nA \<and> triggered A3 then
         (if c - eA < ms then Next (mark_candidate A3) sA3
          else Next ((mark_candidate A3)\<lparr>tempEnd := 0, triggered := False\<rparr>)
                    (set_last_end (speechEndAt (mark_candidate A3)) sA3))
       else Next A3 sA3)"
    using sa fA(2,6) by (auto simp: loop_body_def Let_def mA dA nA_def)
  have bodyB: "loop_body p sdB segmentsB =
      (if p < nB \<and> triggered B3 then
         (if c - eB < ms then Next (mark_candidate B3) sB3
          else Next ((mark_candidate B3)\<lparr>tempEnd := 0, triggered := False\<rparr>)
                    (set_last_end (speechEndAt (mark_candidate B3)) sB3))
       else Next B3 sB3)"
    using sb fB(2,6) loc by (auto simp: loop_body_def Let_def mB dB)
  have ord: "eB \<le> eA" if "triggered B3" "p < nA" "triggered A3"
    using that i2 rA rB by (auto simp: eA_def eB_def)
  have nAB: "nA \<le> nB" using cfgs(2) by (simp add: nA_def)
  have A_no: "loop_body p sdA segmentsA = Next A3 sA3" if "\<not> (p < nA \<and> triggered A3)"
    unfolding bodyA using that by (rule if_not_P)
  have B_no: "loop_body p sdB segmentsB = Next B3 sB3" if "\<not> (p < nB \<and> triggered B3)"
    unfolding bodyB using that by (rule if_not_P)
  have A_yes: "loop_body p sdA segmentsA =
         (if c - eA < ms then Next (mark_candidate A3) sA3
          else Next ((mark_candidate A3)\<lparr>tempEnd := 0, triggered := False\<rparr>)
                    (set_last_end (speechEndAt (mark_candidate A3)) sA3))"
    if "p < nA \<and> triggered A3"
    unfolding bodyA using that by (rule if_P)
  have B_yes: "loop_body p sdB segmentsB =
         (if c - eB < ms then Next (mark_candidate B3) sB3
          else Next ((mark_candidate B3)\<lparr>tempEnd := 0, triggered := False\<rparr>)
                    (set_last_end (speechEndAt (mark_candidate B3)) sB3))"
    if "p < nB \<and> triggered B3"
    unfolding bodyB using that by (rule if_P)
  show ?thesis
  proof (cases "p < nB \<and> triggered B3")
    case False
    note B = B_no [OF False]
    show ?thesis
    proof (cases "p < nA \<and> triggered A3")
      case False
      show ?thesis unfolding A_no [OF False] B using i1 i2 len3 by simp
    next
      case True
      with \<open>\<not> (p < nB \<and> triggered B3)\<close> nAB have nb: "\<not> triggered B3" by auto
      show ?thesis unfolding A_yes [OF True] B using nb len3 by (simp add: mA)
    qed
  next
    case True
    note B = B_yes [OF True]
    show ?thesis
    proof (cases "p < nA \<and> triggered A3")
      case False
      have "tempEnd A3 \<noteq> 0 \<longrightarrow> eB \<le> tempEnd A3 \<and> eB \<noteq> 0"
        using i2 True eBr by (auto simp: eB_def)
      then show ?thesis unfolding A_no [OF False] B using True i1 len3 eBr by (simp add: mB)
    next
      case tA: True
      have o: "eB \<le> eA" using ord True tA by simp
      show ?thesis unfolding A_yes [OF tA] B using True tA o len3 eAr eBr
        by (auto simp: mA mB)
    qed
  qed
qed


lemma detect_loop_neg_mono:
  assumes "loop_head infer pcm sdA0 i sdA segmentsA"
    and "loop_head infer pcm (sdA0\<lparr>cfg := (cfg sdA0)\<lparr>NegativeThreshold := nB\<rparr>\<rparr>) i sdB segmentsB"
    and "currSample sdA0 + int (length pcm) < 2 ^ 63"
    and "state sdB = state sdA" and "ctx sdB = ctx sdA"
    and "triggered sdB \<longrightarrow> triggered sdA"
    and "triggered sdB \<and> tempEnd sdA \<noteq> 0 \<longrightarrow> tempEnd sdB \<noteq> 0 \<and> tempEnd sdB \<le> tempEnd sdA"
    and "length segmentsA \<le> length segmentsB"
    and start: "NegativeThreshold (cfg sdA0) \<le> nB" "\<not> triggered sdA0" "tempEnd sdA0 = 0"
      "0 \<le> currSample sdA0"
  shows "(\<exists>outA sA outB sB.
            detect_loop infer pcm i sdA segmentsA = (Inr outA, sA) \<and>
            detect_loop infer pcm i sdB segmentsB = (Inr outB, sB) \<and>
            length outA \<le> length outB)
       \<or> (\<exists>err sA sB.
            detect_loop infer pcm i sdA segmentsA = (Inl (InferFailed err), sA) \<and>
            detect_loop infer pcm i sdB segmentsB = (Inl (InferFailed err), sB))"
  using assms(1-8)
proof (induction infer pcm i sdA segmentsA arbitrary: sdB segmentsB rule: detect_loop.induct)
  case (1 infer pcm i sdA segmentsA)
  let ?sdB0 = "sdA0\<lparr>cfg := (cfg sdA0)\<lparr>NegativeThreshold := nB\<rparr>\<rparr>"
  note hA = "1.prems"(1) and hB = "1.prems"(2) and lenp = "1.prems"(3)
    and st = "1.prems"(4) and cx = "1.prems"(5) and i1 = "1.prems"(6) and i2 = "1.prems"(7)
    and len = "1.prems"(8)
  have gA: "cfg sdA = cfg sdA0" using hA by (rule loop_head_cfg)
  have gB: "cfg sdB = (cfg sdA)\<lparr>NegativeThreshold := nB\<rparr>"
    using loop_head_cfg [OF hB] gA by simp
  have WB: "windowSize sdB = windowSize sdA" by (simp add: windowSize_def gB)
  have b0: "\<not> triggered ?sdB0" "tempEnd ?sdB0 = 0" "0 \<le> currSample ?sdB0"
    "currSample ?sdB0 + int (length pcm) < 2 ^ 63" "currSample ?sdB0 = currSample sdA0"
    using start lenp by simp_all
  have cA: "currSample sdA = currSample sdA0 + i"
    using loop_head_currSample [OF hA start(4) lenp] .
  have cB: "currSample sdB = currSample sdA"
    using loop_head_currSample [OF hB b0(3,4)] cA b0(5) by simp
  have ix: "0 \<le> i" using loop_head_index [OF hA] by simp
  have tA: "tempEnd sdA = 0 \<or> 0 < tempEnd sdA \<and> tempEnd sdA \<le> currSample sdA"
    using loop_head_tempEnd [OF hA start(4) lenp] start(3) windowSize_pos [of sdA] by auto
  have tB: "tempEnd sdB = 0 \<or> 0 < tempEnd sdB \<and> tempEnd sdB \<le> currSample sdB"
    using loop_head_tempEnd [OF hB b0(3,4)] b0(2) windowSize_pos [of sdB] by auto
  have neA: "triggered sdA \<longrightarrow> segmentsA \<noteq> []"
    using loop_head_triggered_nonempty [OF hA start(2)] .
  have neB: "triggered sdB \<longrightarrow> segmentsB \<noteq> []"
    using loop_head_triggered_nonempty [OF hB b0(1)] .
  show ?case
  proof (cases "i < int (length pcm) - windowSize sdA")
    case False
    then show ?thesis
      using len by (simp add: detect_loop.simps [of infer pcm i] WB)
  next
    case True
    obtain res st' cx' where inf: "infer (SampleRate (cfg sdA)) (currSample sdA) (state sdA, ctx sdA)
               (take (nat (windowSize sdA)) (drop (nat i) pcm)) = (res, st', cx')"
      by (metis prod_cases3)
    have infB: "infer (SampleRate (cfg sdB)) (currSample sdB) (state sdB, ctx sdB)
               (take (nat (windowSize sdB)) (drop (nat i) pcm)) = (res, st', cx')"
      using inf by (simp add: WB gB cB st cx)
    have TrueB: "i < int (length pcm) - windowSize sdB" using True WB by simp
    show ?thesis
    proof (cases res)
      case (Inl err)
      have "detect_loop infer pcm i sdA segmentsA =
            (Inl (InferFailed err), sdA\<lparr>state := st', ctx := cx'\<rparr>)"
        using True inf Inl by (simp add: detect_loop_infer_error)
      moreover have "detect_loop infer pcm i sdB segmentsB =
            (Inl (InferFailed err), sdB\<lparr>state := st', ctx := cx'\<rparr>)"
        using TrueB infB Inl by (simp add: detect_loop_infer_error)
      ultimately show ?thesis by blast
    next
      case (Inr p)
      let ?A = "sdA\<lparr>state := st', ctx := cx'\<rparr>"
      let ?B = "sdB\<lparr>state := st', ctx := cx'\<rparr>"
      have "\<exists>sdA' segmentsA' sdB' segmentsB'.
           loop_body p ?A segmentsA = Next sdA' segmentsA' \<and>
           loop_body p ?B segmentsB = Next sdB' segmentsB' \<and>
           (triggered sdB' \<longrightarrow> triggered sdA') \<and>
           (triggered sdB' \<and> tempEnd sdA' \<noteq> 0 \<longrightarrow> tempEnd sdB' \<noteq> 0 \<and> tempEnd sdB' \<le> tempEnd sdA') \<and>
           length segmentsA' \<le> length segmentsB'"
      proof (rule loop_body_neg_mono [where nB = nB])
        show "cfg ?B = (cfg ?A)\<lparr>NegativeThreshold := nB\<rparr>" using gB by simp
        show "NegativeThreshold (cfg ?A) \<le> nB" using gA start(1) by simp
        show "currSample ?B = currSample ?A" using cB by simp
        show "0 \<le> currSample ?A" using cA ix start(4) by simp
        show "currSample ?A + windowSize ?A < 2 ^ 63" using cA True lenp by simp
        show "tempEnd ?A = 0 \<or> 0 < tempEnd ?A \<and> tempEnd ?A \<le> currSample ?A" using tA by simp
        show "tempEnd ?B = 0 \<or> 0 < tempEnd ?B \<and> tempEnd ?B \<le> currSample ?B" using tB by simp
        show "triggered ?B \<longrightarrow> triggered ?A" using i1 by simp
        show "triggered ?B \<and> tempEnd ?A \<noteq> 0 \<longrightarrow> tempEnd ?B \<noteq> 0 \<and> tempEnd ?B \<le> tempEnd ?A"
          using i2 by simp
        show "triggered ?A \<longrightarrow> segmentsA \<noteq> []" using neA by simp
        show "triggered ?B \<longrightarrow> segmentsB \<noteq> []" using neB by simp
        show "length segmentsA \<le> length segmentsB" using len .
      qed
      then obtain sdA' segmentsA' sdB' segmentsB' where
        nA: "loop_body p ?A segmentsA = Next sdA' segmentsA'"
        and nB: "loop_body p ?B segmentsB = Next sdB' segmentsB'"
        and j1: "triggered sdB' \<longrightarrow> triggered sdA'"
        and j2: "triggered sdB' \<and> tempEnd sdA' \<noteq> 0 \<longrightarrow> tempEnd sdB' \<noteq> 0 \<and> tempEnd sdB' \<le> tempEnd sdA'"
        and j3: "length segmentsA' \<le> length segmentsB'"
        by blast
      have hA': "loop_head infer pcm sdA0 (i + windowSize sdA) sdA' segmentsA'"
        using hA True inf Inr nA by (auto intro: loop_head.later)
      have "loop_head infer pcm ?sdB0 (i + windowSize sdB) sdB' segmentsB'"
        using hB TrueB infB Inr nB by (auto intro: loop_head.later)
      then have hB': "loop_head infer pcm ?sdB0 (i + windowSize sdA) sdB' segmentsB'"
        using WB by simp
      have s': "state sdB' = state sdA'" "ctx sdB' = ctx sdA'"
        using loop_body_Next_frame(2,3) [OF nA] loop_body_Next_frame(2,3) [OF nB] by simp_all
      have eA: "detect_loop infer pcm i sdA segmentsA =
              detect_loop infer pcm (i + windowSize sdA) sdA' segmentsA'"
        using True inf Inr nA by (subst detect_loop.simps) simp
      have eB: "detect_loop infer pcm i sdB segmentsB =
              detect_loop infer pcm (i + windowSize sdA) sdB' segmentsB'"
        using TrueB infB Inr nB WB by (subst detect_loop.simps) simp
      show ?thesis
        unfolding eA eB
        by (rule "1.IH" [OF True inf [symmetric] Inr refl nA hA' hB' lenp s' j1 j2 j3])
    qed
  qed
qed

section \<open>Lowering the negative threshold\<close>

text \<open>
  Claim C6, as amended. Two calls of \<open>Detect\<close> are compared that differ only in
  \<open>NegativeThreshold\<close>, \<open>n1\<close> in one and \<open>n2\<close> in the other, with \<open>n1 \<le> n2\<close>; both
  are entered outside a segment with no candidate pending (as from the reset state), and
  \<open>currSample\<close> plus the buffer stays in the range of \<open>int\<close>. Then either both
  runs end with the same failure of \<open>infer\<close>, or both run to their end and the list
  collected under \<open>n1\<close>, before the filter of short segments, is not longer than the list
  collected under \<open>n2\<close>. When the filter is off (\<open>MinSpeechDurationMs\<close> is not
  positive), \<open>Detect\<close> under \<open>n1\<close> does not return more segments than under \<open>n2\<close>.
\<close>

theorem lower_negative_threshold_fewer_segments:
  "NegativeThreshold (cfg sd0) \<le> n2 \<and> \<not> triggered sd0 \<and> tempEnd sd0 = 0 \<and>
   0 \<le> currSample sd0 \<and> currSample sd0 + int (length pcm) < 2 ^ 63
   \<longrightarrow>
   ((\<exists>out1 s1 out2 s2.
        detect_loop infer pcm 0 sd0 [] = (Inr out1, s1) \<and>
        detect_loop infer pcm 0 (sd0\<lparr>cfg := (cfg sd0)\<lparr>NegativeThreshold := n2\<rparr>\<rparr>) [] = (Inr out2, s2) \<and>
        length out1 \<le> length out2)
    \<or> (\<exists>err s1 s2.
        detect_loop infer pcm 0 sd0 [] = (Inl (InferFailed err), s1) \<and>
        detect_loop infer pcm 0 (sd0\<lparr>cfg := (cfg sd0)\<lparr>NegativeThreshold := n2\<rparr>\<rparr>) [] =
          (Inl (InferFailed err), s2)))
   \<and> (MinSpeechDurationMs (cfg sd0) \<le> 0 \<longrightarrow>
        length (fst (fst (Detect infer sd0 pcm)))
        \<le> length (fst (fst (Detect infer (sd0\<lparr>cfg := (cfg sd0)\<lparr>NegativeThreshold := n2\<rparr>\<rparr>) pcm))))"
proof (intro impI conjI)
  let ?sdB = "sd0\<lparr>cfg := (cfg sd0)\<lparr>NegativeThreshold := n2\<rparr>\<rparr>"
  assume a: "NegativeThreshold (cfg sd0) \<le> n2 \<and> \<not> triggered sd0 \<and> tempEnd sd0 = 0 \<and>
   0 \<le> currSample sd0 \<and> currSample sd0 + int (length pcm) < 2 ^ 63"
  then have a1: "NegativeThreshold (cfg sd0) \<le> n2" and a2: "\<not> triggered sd0"
    and a3: "tempEnd sd0 = 0" and a4: "0 \<le> currSample sd0"
    and a5: "currSample sd0 + int (length pcm) < 2 ^ 63"
    by blast+
  have r: "state ?sdB = state sd0" "ctx ?sdB = ctx sd0" "triggered ?sdB \<longrightarrow> triggered sd0"
    "triggered ?sdB \<and> tempEnd sd0 \<noteq> 0 \<longrightarrow> tempEnd ?sdB \<noteq> 0 \<and> tempEnd ?sdB \<le> tempEnd sd0"
    "length ([] :: Segment list) \<le> length ([] :: Segment list)"
    using a3 by simp_all
  show both: "(\<exists>out1 s1 out2 s2.
        detect_loop infer pcm 0 sd0 [] = (Inr out1, s1) \<and>
        detect_loop infer pcm 0 ?sdB [] = (Inr out2, s2) \<and>
        length out1 \<le> length out2)
    \<or> (\<exists>err s1 s2.
        detect_loop infer pcm 0 sd0 [] = (Inl (InferFailed err), s1) \<and>
        detect_loop infer pcm 0 ?sdB [] = (Inl (InferFailed err), s2))"
    by (rule detect_loop_neg_mono [OF loop_head.first loop_head.first a5 r a1 a2 a3 a4])
  assume off: "MinSpeechDurationMs (cfg sd0) \<le> 0"
  show "length (fst (fst (Detect infer sd0 pcm))) \<le> length (fst (fst (Detect infer ?sdB pcm)))"
  proof (cases "int (length pcm) < windowSize sd0")
    case True
    then show ?thesis by (simp add: Detect_def windowSize_def)
  next
    case False
    then have nb: "\<not> int (length pcm) < windowSize ?sdB" by (simp add: windowSize_def)
    from both show ?thesis
    proof (elim disjE exE conjE)
      fix out1 s1 out2 s2
      assume l1: "detect_loop infer pcm 0 sd0 [] = (Inr out1, s1)"
        and l2: "detect_loop infer pcm 0 ?sdB [] = (Inr out2, s2)"
        and le: "length out1 \<le> length out2"
      from detect_loop_cases [OF loop_head.first l1]
      obtain i1 where "loop_head infer pcm sd0 i1 s1 out1" by auto
      then have g1: "cfg s1 = cfg sd0" by (rule loop_head_cfg)
      from detect_loop_cases [OF loop_head.first l2]
      obtain i2 where "loop_head infer pcm ?sdB i2 s2 out2" by auto
      then have g2: "cfg s2 = cfg ?sdB" by (rule loop_head_cfg)
      show ?thesis using False nb l1 l2 le off g1 g2 by (simp add: Detect_def)
    next
      fix err s1 s2
      assume "detect_loop infer pcm 0 sd0 [] = (Inl (InferFailed err), s1)"
        and "detect_loop infer pcm 0 ?sdB [] = (Inl (InferFailed err), s2)"
      then show ?thesis using False nb by (simp add: Detect_def)
    qed
  qed
qed

text \<open>At 8000 Hz with the filter off and no minimum silence: speech, a window at 0.3,
  speech, silence. Under 0.2 the window at 0.3 does not end the segment and one segment
  is found; under 0.35 it does, and two are found.\<close>

theorem lower_negative_threshold_fewer_segments_witness:
  "Detect infer_first (fresh (cfg8k\<lparr>NegativeThreshold := 0.2, MinSpeechDurationMs := 0\<rparr>))
      (buffer8k [0.9, 0.3, 0.9, 0.1, 0]) =
     (([\<lparr>SpeechStartAt = 0, SpeechEndAt = 0.128\<rparr>], None),
      (fresh (cfg8k\<lparr>NegativeThreshold := 0.2, MinSpeechDurationMs := 0\<rparr>))\<lparr>currSample := 1024\<rparr>)
   \<and> Detect infer_first (fresh (cfg8k\<lparr>NegativeThreshold := 0.35, MinSpeechDurationMs := 0\<rparr>))
      (buffer8k [0.9, 0.3, 0.9, 0.1, 0]) =
     (([\<lparr>SpeechStartAt = 0, SpeechEndAt = 0.064\<rparr>,
        \<lparr>SpeechStartAt = 0.064, SpeechEndAt = 0.128\<rparr>], None),
      (fresh (cfg8k\<lparr>NegativeThreshold := 0.35, MinSpeechDurationMs := 0\<rparr>))\<lparr>currSample := 1024\<rparr>)
   \<and> length (fst (fst (Detect infer_first
          (fresh (cfg8k\<lparr>NegativeThreshold := 0.2, MinSpeechDurationMs := 0\<rparr>))
          (buffer8k [0.9, 0.3, 0.9, 0.1, 0]))))
     \<le> length (fst (fst (Detect infer_first
          (fresh (cfg8k\<lparr>NegativeThreshold := 0.35, MinSpeechDurationMs := 0\<rparr>))
          (buffer8k [0.9, 0.3, 0.9, 0.1, 0]))))"
proof -
  let ?pcm = "buffer8k [0.9, 0.3, 0.9, 0.1, 0]"
  let ?d1 = "fresh (cfg8k\<lparr>NegativeThreshold := 0.2, MinSpeechDurationMs := 0\<rparr>)"
  let ?d2 = "fresh (cfg8k\<lparr>NegativeThreshold := 0.35, MinSpeechDurationMs := 0\<rparr>)"
  have z: "?d1\<lparr>cfg := (cfg ?d1)\<lparr>NegativeThreshold := 0.35\<rparr>\<rparr> = ?d2"
    by (simp add: fresh_def)
  have r: "NegativeThreshold (cfg ?d1) \<le> 0.35 \<and> \<not> triggered ?d1 \<and> tempEnd ?d1 = 0 \<and>
     0 \<le> currSample ?d1 \<and> currSample ?d1 + int (length ?pcm) < 2 ^ 63"
    by (simp add: run_defs)
  have off: "MinSpeechDurationMs (cfg ?d1) \<le> 0" by (simp add: fresh_def)
  from lower_negative_threshold_fewer_segments [of ?d1 "0.35" ?pcm infer_first, unfolded z] r off
  have le: "length (fst (fst (Detect infer_first ?d1 ?pcm)))
            \<le> length (fst (fst (Detect infer_first ?d2 ?pcm)))"
    by blast
  have e1: "Detect infer_first ?d1 ?pcm =
     (([\<lparr>SpeechStartAt = 0, SpeechEndAt = 0.128\<rparr>], None), ?d1\<lparr>currSample := 1024\<rparr>)"
    by (simp add: run_defs)
  have e2: "Detect infer_first ?d2 ?pcm =
     (([\<lparr>SpeechStartAt = 0, SpeechEndAt = 0.064\<rparr>,
        \<lparr>SpeechStartAt = 0.064, SpeechEndAt = 0.128\<rparr>], None), ?d2\<lparr>currSample := 1024\<rparr>)"
    by (simp add: run_defs)
  from e1 e2 le show ?thesis by blast
qed

text \<open>
  Claim C6 as stated fails once the filter of short segments is applied, since under the
  higher threshold a stretch of speech can fall into pieces that are each too short to
  be kept, while under the lower threshold it is one segment that is long enough. At
  8000 Hz, with the default minimum speech duration of 250 ms (2000 samples) and both
  configurations valid: windows of speech alternate with windows at 0.3, and a silent
  window follows. Under 0.2 the call returns one segment of 0.256 s; under 0.35 it
  collects four segments of 0.064 s and returns none of them.
\<close>

theorem lower_negative_threshold_counterexample:
  "IsValid (cfg8k\<lparr>NegativeThreshold := 0.2\<rparr>) = None \<and> IsValid cfg8k = None
   \<and> NegativeThreshold (cfg8k\<lparr>NegativeThreshold := 0.2\<rparr>) < NegativeThreshold cfg8k
   \<and> Detect infer_first (fresh (cfg8k\<lparr>NegativeThreshold := 0.2\<rparr>))
        (buffer8k [0.9, 0.3, 0.9, 0.3, 0.9, 0.3, 0.9, 0.1, 0]) =
       (([\<lparr>SpeechStartAt = 0, SpeechEndAt = 0.256\<rparr>], None),
        (fresh (cfg8k\<lparr>NegativeThreshold := 0.2\<rparr>))\<lparr>currSample := 2048\<rparr>)
   \<and> Detect infer_first (fresh cfg8k)
        (buffer8k [0.9, 0.3, 0.9, 0.3, 0.9, 0.3, 0.9, 0.1, 0]) =
       (([], None), (fresh cfg8k)\<lparr>currSample := 2048\<rparr>)
   \<and> \<not> length (fst (fst (Detect infer_first (fresh (cfg8k\<lparr>NegativeThreshold := 0.2\<rparr>))
                (buffer8k [0.9, 0.3, 0.9, 0.3, 0.9, 0.3, 0.9, 0.1, 0]))))
       \<le> length (fst (fst (Detect infer_first (fresh cfg8k)
                (buffer8k [0.9, 0.3, 0.9, 0.3, 0.9, 0.3, 0.9, 0.1, 0]))))"
  by (simp add: run_defs IsValid_def)

end
